theory Spec2Isabelle
  imports Main "HOL-Library.Word" "HOL-Library.Multiset"
begin

unbundle bit_operations_syntax

section \<open>The XKC codec: data model\<close>

text \<open>
  The embedding follows the template unit \<open>XKC<alphabet_T>\<close> (xkc.h). A symbol of
  type \<open>alphabet_T\<close> is an \<open>'a word\<close>; the default instantiation \<open>byte_t\<close> is
  \<open>8 word\<close>. Quantities of type \<open>size_t\<close> that only count are \<open>nat\<close>; the one-byte
  run counter, the one-byte header fields and the 32-bit bit counter are words, so
  that their wrap-around is part of the model.
\<close>

text \<open>
  Modelled from the spec: \<open>byte_t\<close> and \<open>bytes_t\<close> (types.h is not among the sources),
  the unsigned symbol of one byte and the byte buffer.
\<close>

type_synonym byte_t = "8 word"
type_synonym bytes_t = "byte_t list"

text \<open>
  \<open>shared_node\<close> is a nullable owning pointer to a \<open>Node\<close>. The node's \<open>value\<close>
  has the widened signed type \<open>value_t\<close>, modelled as \<open>int\<close>; a symbol is stored as
  its unsigned value. The back-references \<open>root\<close> and \<open>parent\<close> of a node are
  its position in the tree: \<open>Node::depth()\<close>, which counts the parent links up to
  the root, is the number of edges walked down from the root, and the functions
  below that call it carry that number as an argument.
\<close>

datatype shared_node =
  Nullptr
  | Node (nvalue: int) (left: shared_node) (right: shared_node)

definition INVALID :: int where
  "INVALID = - 1"

text \<open>\<open>Node::count_nodes\<close>: the number of descendants of a node.\<close>

fun count_nodes :: "shared_node \<Rightarrow> nat" where
  "count_nodes (Node v l r) =
     (if l \<noteq> Nullptr then count_nodes l + 1 else 0)
     + (if r \<noteq> Nullptr then count_nodes r + 1 else 0)"

text \<open>\<open>Node::height\<close>: the longest downward path, in edges.\<close>

fun height :: "shared_node \<Rightarrow> nat" where
  "height (Node v l r) =
     max (if l \<noteq> Nullptr then height l + 1 else 0)
         (if r \<noteq> Nullptr then height r + 1 else 0)"

text \<open>\<open>BinaryTree::BinaryTree()\<close>: a root holding the sentinel, without children.\<close>

definition BinaryTree :: shared_node where
  "BinaryTree = Node INVALID Nullptr Nullptr"

text \<open>\<open>BinaryTree::insert(shared_node parent, alphabet_T value)\<close>.\<close>

fun insert_node :: "shared_node \<Rightarrow> 'a::len word \<Rightarrow> shared_node" where
  "insert_node (Node v l r) x =
     (if l = Nullptr then Node v (Node (uint x) Nullptr Nullptr) r
      else if r = Nullptr then Node v l (Node (uint x) Nullptr Nullptr)
      else if count_nodes l \<le> count_nodes r then Node v (insert_node l x) r
      else Node v l (insert_node r x))"

text \<open>\<open>BinaryTree::insert(alphabet_T value)\<close>, on the tree given by its root.\<close>

fun insert_value :: "shared_node \<Rightarrow> 'a::len word \<Rightarrow> shared_node" where
  "insert_value (Node v l r) x =
     (if v = INVALID then Node (uint x) l r else insert_node (Node v l r) x)"

text \<open>The loops \<open>for (auto&& letter : alphabet) binary_tree.insert(letter.value)\<close>.\<close>

definition build_tree :: "'a::len word list \<Rightarrow> shared_node" where
  "build_tree xs = foldl insert_value BinaryTree xs"

text \<open>
  \<open>PathInfo\<close>: the bitset \<open>bit_path\<close> is the natural number with the same bits
  (bit \<open>i\<close> of the number is \<open>bit_path[i]\<close>); every index the codec uses on a
  tree of at most 256 letters is below the bitset's size.
\<close>

record PathInfo =
  bit_path :: nat
  depth :: nat

definition PathInfo_new :: PathInfo where
  "PathInfo_new = \<lparr>bit_path = 0, depth = 0\<rparr>"

text \<open>
  \<open>BinaryTree::path_info(PathInfo&, shared_node parent, alphabet_T value)\<close>: the
  argument \<open>d\<close> is \<open>parent->depth()\<close>; the result is the returned flag and the
  updated \<open>PathInfo\<close>.
\<close>

fun path_info_node ::
  "PathInfo \<Rightarrow> shared_node \<Rightarrow> nat \<Rightarrow> 'a::len word \<Rightarrow> bool \<times> PathInfo" where
  "path_info_node pathInfo Nullptr d x = (False, pathInfo)"
| "path_info_node pathInfo (Node v l r) d x =
     (if v = uint x then (True, pathInfo\<lparr>depth := d\<rparr>)
      else
        (case path_info_node pathInfo l (Suc d) x of
          (found_left, p1) \<Rightarrow>
            if found_left then (True, p1\<lparr>bit_path := unset_bit d (bit_path p1)\<rparr>)
            else
              (case path_info_node (p1\<lparr>bit_path := set_bit d (bit_path p1)\<rparr>) r (Suc d) x of
                (found_right, p2) \<Rightarrow>
                  if found_right then (True, p2\<lparr>bit_path := set_bit d (bit_path p2)\<rparr>)
                  else (False, p2\<lparr>bit_path := unset_bit d (bit_path p2)\<rparr>))))"

definition path_info :: "PathInfo \<Rightarrow> shared_node \<Rightarrow> 'a::len word \<Rightarrow> bool \<times> PathInfo" where
  "path_info pathInfo root x = path_info_node pathInfo root 0 x"

text \<open>
  Reading through a null pointer and reading a buffer past its end are undefined in
  the source; the model returns an error there.
\<close>

datatype error = NullDeref | OutOfBounds

text \<open>
  \<open>BinaryTree::find_value\<close>: the loop over \<open>depth\<close>, then the read of
  \<open>current_node->value\<close> into \<open>letter_value\<close>, which is the result here.
\<close>

function find_value_loop :: "PathInfo \<Rightarrow> nat \<Rightarrow> shared_node \<Rightarrow> error + shared_node" where
  "find_value_loop pathInfo i current_node =
     (if i < depth pathInfo then
        (case current_node of
           Nullptr \<Rightarrow> Inl NullDeref
         | Node v l r \<Rightarrow>
             find_value_loop pathInfo (Suc i) (if bit (bit_path pathInfo) i then r else l))
      else Inr current_node)"
  by pat_completeness auto
termination
  by (relation "measure (\<lambda>(p, i, n). depth p - i)") auto

declare find_value_loop.simps [simp del]

definition find_value :: "shared_node \<Rightarrow> PathInfo \<Rightarrow> error + 'a::len word" where
  "find_value root pathInfo =
     (case find_value_loop pathInfo 0 root of
        Inl e \<Rightarrow> Inl e
      | Inr Nullptr \<Rightarrow> Inl NullDeref
      | Inr (Node v l r) \<Rightarrow> Inr (word_of_int v))"

text \<open>The tree invariant of the data model: a right child only beside a left child.\<close>

fun left_filled_first :: "shared_node \<Rightarrow> bool" where
  "left_filled_first Nullptr = True"
| "left_filled_first (Node v l r) =
     ((l = Nullptr \<longrightarrow> r = Nullptr) \<and> left_filled_first l \<and> left_filled_first r)"

text \<open>The number of nodes of a subtree, its own root included.\<close>

fun total_nodes :: "shared_node \<Rightarrow> nat" where
  "total_nodes Nullptr = 0"
| "total_nodes (Node v l r) = 1 + total_nodes l + total_nodes r"

text \<open>The values held by the nodes of a subtree.\<close>

fun node_values :: "shared_node \<Rightarrow> int set" where
  "node_values Nullptr = {}"
| "node_values (Node v l r) = {v} \<union> node_values l \<union> node_values r"

subsection \<open>Run-length collapser and alphabet builder\<close>

text \<open>
  \<open>Occurrence\<close> and \<open>Letter\<close>; \<open>'s\<close> is the symbol type \<open>alphabet_T\<close>. The fields
  \<open>count\<close> and \<open>value\<close> of the source are \<open>count_occ\<close> and \<open>lvalue\<close> here. A
  frequency is a sum of run counts, at most the number of values of the input, so
  the \<open>size_t\<close> that holds it does not wrap and is a \<open>nat\<close>.
\<close>

record 's Occurrence =
  letter_value :: 's
  count_occ :: byte_t

record 's Letter =
  lvalue :: 's
  freq :: nat

text \<open>
  The inner \<open>for\<close> loop of "Store contiguous values": \<open>v\<close> is
  \<open>values[start_occurrence_index]\<close>, \<open>c\<close> is \<open>occurrence.count\<close>, and the list is
  \<open>values[value_index .. max_values)\<close>; the result is the count and the values
  not consumed.
\<close>

fun extend_occurrence :: "'s \<Rightarrow> byte_t \<Rightarrow> 's list \<Rightarrow> byte_t \<times> 's list" where
  "extend_occurrence v c [] = (c, [])"
| "extend_occurrence v c (x # xs) =
     (if c = 255 then (c, x # xs)
      else if v \<noteq> x then (c, x # xs)
      else extend_occurrence v (c + 1) xs)"

lemma extend_occurrence_length:
  "extend_occurrence v c xs = (c', rest) \<Longrightarrow> length rest \<le> length xs"
  by (induction v c xs rule: extend_occurrence.induct) (auto split: if_splits)

text \<open>The outer \<open>while (value_index < max_values)\<close> loop.\<close>

function store_contiguous_values :: "'s list \<Rightarrow> 's Occurrence list" where
  "store_contiguous_values [] = []"
| "store_contiguous_values (x # xs) =
     (case extend_occurrence x 1 xs of
        (c, rest) \<Rightarrow> \<lparr>letter_value = x, count_occ = c\<rparr> # store_contiguous_values rest)"
  by pat_completeness auto
termination
  by (relation "measure length") (auto dest: extend_occurrence_length [OF sym])

text \<open>"Construct the alphabet": one step of the loop, with \<open>std::find_if\<close> inlined.\<close>

fun fold_occurrence :: "'s Letter list \<Rightarrow> 's Occurrence \<Rightarrow> 's Letter list" where
  "fold_occurrence [] occurrence =
     [\<lparr>lvalue = letter_value occurrence, freq = unat (count_occ occurrence)\<rparr>]"
| "fold_occurrence (a # alphabet) occurrence =
     (if letter_value occurrence = lvalue a
      then a\<lparr>freq := freq a + unat (count_occ occurrence)\<rparr> # alphabet
      else a # fold_occurrence alphabet occurrence)"

definition construct_alphabet :: "'s Occurrence list \<Rightarrow> 's Letter list" where
  "construct_alphabet occurrences = foldl fold_occurrence [] occurrences"

text \<open>
  \<open>std::sort\<close> with the comparison \<open>a.freq > b.freq\<close> is library code. Its contract:
  the result is a permutation of the range, and no element compares before one that
  precedes it. The order of elements that compare equal is not specified.
\<close>

definition std_sort_post :: "'s Letter list \<Rightarrow> 's Letter list \<Rightarrow> bool" where
  "std_sort_post xs ys = (mset ys = mset xs \<and> sorted_wrt (\<lambda>a b. \<not> freq b > freq a) ys)"

text \<open>The symbols a run sequence stands for.\<close>

definition expand_occurrences :: "'s Occurrence list \<Rightarrow> 's list" where
  "expand_occurrences occs =
     concat (map (\<lambda>occ. replicate (unat (count_occ occ)) (letter_value occ)) occs)"

text \<open>Run sequences with counts as numbers, to compare the collapser against.\<close>

definition valid_runs :: "('s \<times> nat) list \<Rightarrow> bool" where
  "valid_runs rs = list_all (\<lambda>(s, k). 1 \<le> k \<and> k \<le> 255) rs"

definition expand_runs :: "('s \<times> nat) list \<Rightarrow> 's list" where
  "expand_runs rs = concat (map (\<lambda>(s, k). replicate k s) rs)"

text \<open>The distinct symbols of the input, in the order in which they are first met.\<close>

fun first_seen :: "'s list \<Rightarrow> 's list" where
  "first_seen [] = []"
| "first_seen (x # xs) = x # filter (\<lambda>y. y \<noteq> x) (first_seen xs)"

text \<open>The position at which a symbol is first met in the input.\<close>

fun encounter_index :: "'s list \<Rightarrow> 's \<Rightarrow> nat" where
  "encounter_index [] v = 0"
| "encounter_index (x # xs) v = (if x = v then 0 else Suc (encounter_index xs v))"

text \<open>
  The order a stable sort would give: of two letters with the same frequency, the
  one met first in the input comes first.
\<close>

definition ties_in_encounter_order :: "'s list \<Rightarrow> 's Letter list \<Rightarrow> bool" where
  "ties_in_encounter_order B alphabet =
     sorted_wrt (\<lambda>a b. freq a = freq b \<longrightarrow>
        encounter_index B (lvalue a) < encounter_index B (lvalue b)) alphabet"

text \<open>The total frequency the alphabet records for a symbol.\<close>

definition freq_of :: "'s Letter list \<Rightarrow> 's \<Rightarrow> nat" where
  "freq_of alphabet v = sum_list (map freq (filter (\<lambda>a. lvalue a = v) alphabet))"

subsection \<open>The codec driver: encode\<close>

text \<open>
  Modelled from the spec: \<open>BitsNeeded\<close> (bits.h is not among the sources), "the
  number of bits needed to represent" its argument.
\<close>

fun BitsNeeded :: "nat \<Rightarrow> nat" where
  "BitsNeeded n = (if n = 0 then 0 else Suc (BitsNeeded (n div 2)))"

declare BitsNeeded.simps [simp del]

text \<open>
  The variables the lambdas \<open>check_bit\<close> and \<open>write_bit\<close> capture by reference.
\<close>

record writer =
  result :: bytes_t
  result_byte :: byte_t
  written_bits_on_result_byte :: nat
  written_bits :: "32 word"

definition check_bit :: "writer \<Rightarrow> writer" where
  "check_bit w =
     (let w1 = w\<lparr>written_bits_on_result_byte := written_bits_on_result_byte w + 1,
                 written_bits := written_bits w + 1\<rparr>
      in if written_bits_on_result_byte w1 = 8
         then w1\<lparr>result := result w1 @ [result_byte w1],
                 written_bits_on_result_byte := 0,
                 result_byte := 0\<rparr>
         else w1)"

definition write_bit :: "writer \<Rightarrow> writer" where
  "write_bit w = w\<lparr>result_byte := result_byte w OR push_bit (written_bits_on_result_byte w) 1\<rparr>"

text \<open>
  \<open>method1\<close>: the loop over the bits of the depth, then the loop over the bit path.
  The tests \<open>path_info.depth & (1 << depth_bit)\<close> and \<open>path_info.bit_path[depth]\<close>
  read one bit. The shift is that of an \<open>int\<close>, defined for \<open>depth_bit\<close> below 31;
  \<open>max_depth_bits\<close> is at most the width of a symbol in bits (lemma
  \<open>encode_depth_bits_le_width\<close>).
\<close>

definition method1 :: "nat \<Rightarrow> PathInfo \<Rightarrow> writer \<Rightarrow> writer" where
  "method1 max_depth_bits pathInfo w =
     (let w1 = foldl (\<lambda>w depth_bit.
                  check_bit (if bit (depth pathInfo) depth_bit then write_bit w else w))
                w [0..<max_depth_bits]
      in foldl (\<lambda>w d. check_bit (if bit (bit_path pathInfo) d then write_bit w else w))
           w1 [0..<depth pathInfo])"

text \<open>The body of \<open>for (auto&& occurrence : occurrences)\<close>.\<close>

definition encode_occurrence ::
  "shared_node \<Rightarrow> nat \<Rightarrow> writer \<Rightarrow> ('a::len) word Occurrence \<Rightarrow> writer" where
  "encode_occurrence binary_tree max_depth_bits w occurrence =
     (let pathInfo = snd (path_info PathInfo_new binary_tree (letter_value occurrence))
      in foldl (\<lambda>w count. method1 max_depth_bits pathInfo w) w
           [0..<unat (count_occ occurrence)])"

text \<open>The four bytes of a \<open>uint32_t\<close> in memory, least significant first.\<close>

definition bytes_of_uint32 :: "32 word \<Rightarrow> bytes_t" where
  "bytes_of_uint32 x = map (\<lambda>i. ucast (drop_bit (8 * i) x)) [0..<4]"

text \<open>
  \<open>encode\<close>: the argument is the array \<open>values[0 .. max_values)\<close>, which for
  \<open>byte_t\<close> is the buffer itself; \<open>std_sort\<close> is the library sort.
\<close>

definition encode ::
  "(('a::len) word Letter list \<Rightarrow> 'a word Letter list) \<Rightarrow> 'a word list \<Rightarrow> bytes_t" where
  "encode std_sort values =
     (let occurrences = store_contiguous_values values;
          alphabet = std_sort (construct_alphabet occurrences);
          binary_tree = build_tree (map lvalue alphabet);
          max_tree_depth = height binary_tree;
          max_depth_bits = BitsNeeded max_tree_depth;
          header = [of_nat max_depth_bits, ucast ((of_nat (length alphabet) :: 64 word) - 1)]
                   @ map (\<lambda>letter. ucast (lvalue letter)) alphabet;
          w = foldl (encode_occurrence binary_tree max_depth_bits)
                \<lparr>result = header, result_byte = 0, written_bits_on_result_byte = 0,
                 written_bits = 0\<rparr> occurrences;
          flushed = (if written_bits_on_result_byte w > 0 then result w @ [result_byte w]
                     else result w)
      in flushed @ bytes_of_uint32 (written_bits w))"

subsection \<open>The codec driver: decode\<close>

text \<open>
  \<open>decode\<close> reads one byte for each alphabet entry, whatever \<open>alphabet_T\<close> is, widens
  it to \<open>alphabet_T\<close> for the tree and narrows the value it finds back to a byte of
  the result; the model is the instantiation at \<open>byte_t\<close>.
\<close>

record reader =
  read_bytes :: nat
  read_bits_on_result_byte :: nat
  bits_read :: nat

definition read_bit :: "bytes_t \<Rightarrow> reader \<Rightarrow> error + (nat \<times> reader)" where
  "read_bit data r =
     (if read_bytes r < length data then
        (let value = (if data ! read_bytes r AND push_bit (read_bits_on_result_byte r) 1 \<noteq> 0
                      then 1 else 0);
             r1 = r\<lparr>read_bits_on_result_byte := read_bits_on_result_byte r + 1,
                     bits_read := bits_read r + 1\<rparr>;
             r2 = (if read_bits_on_result_byte r1 = 8
                   then r1\<lparr>read_bytes := read_bytes r1 + 1, read_bits_on_result_byte := 0\<rparr>
                   else r1)
         in Inr (value, r2))
      else Inl OutOfBounds)"

text \<open>
  The loop that reads the depth, \<open>path_info.depth |= (bit << depth_bit)\<close>; \<open>bit\<close> is
  0 or 1, and the shift is taken without the limit of the \<open>int\<close> it is computed in
  (\<open>depth_bit\<close> stays below 31 on every buffer \<open>encode\<close> returns).
\<close>

function read_depth ::
  "bytes_t \<Rightarrow> nat \<Rightarrow> nat \<Rightarrow> PathInfo \<Rightarrow> reader \<Rightarrow> error + (PathInfo \<times> reader)" where
  "read_depth data max_depth_bits depth_bit pathInfo r =
     (if depth_bit < max_depth_bits then
        (case read_bit data r of
           Inl e \<Rightarrow> Inl e
         | Inr (b, r') \<Rightarrow>
             read_depth data max_depth_bits (Suc depth_bit)
               (pathInfo\<lparr>depth := depth pathInfo OR push_bit depth_bit b\<rparr>) r')
      else Inr (pathInfo, r))"
  by pat_completeness auto
termination
  by (relation "measure (\<lambda>(data, m, k, p, r). m - k)") auto

declare read_depth.simps [simp del]

text \<open>The loop that reads the bit path, \<open>path_info.bit_path[depth] = bit\<close>.\<close>

function read_bit_path ::
  "bytes_t \<Rightarrow> nat \<Rightarrow> PathInfo \<Rightarrow> reader \<Rightarrow> error + (PathInfo \<times> reader)" where
  "read_bit_path data d pathInfo r =
     (if d < depth pathInfo then
        (case read_bit data r of
           Inl e \<Rightarrow> Inl e
         | Inr (b, r') \<Rightarrow>
             read_bit_path data (Suc d)
               (pathInfo\<lparr>bit_path := (if b \<noteq> 0 then set_bit d (bit_path pathInfo)
                                          else unset_bit d (bit_path pathInfo))\<rparr>) r')
      else Inr (pathInfo, r))"
  by pat_completeness auto
termination
  by (relation "measure (\<lambda>(data, d, p, r). depth p - d)") auto

declare read_bit_path.simps [simp del]

text \<open>The body of \<open>while (bits_read < written_bits)\<close>: one letter.\<close>

definition decode_letter ::
  "bytes_t \<Rightarrow> nat \<Rightarrow> shared_node \<Rightarrow> reader \<Rightarrow> error + (byte_t \<times> reader)" where
  "decode_letter data max_depth_bits binary_tree r =
     (case read_depth data max_depth_bits 0 PathInfo_new r of
        Inl e \<Rightarrow> Inl e
      | Inr (p1, r1) \<Rightarrow>
          (case read_bit_path data 0 p1 r1 of
             Inl e \<Rightarrow> Inl e
           | Inr (p2, r2) \<Rightarrow>
               (case find_value binary_tree p2 of
                  Inl e \<Rightarrow> Inl e
                | Inr letter \<Rightarrow> Inr (letter, r2))))"

text \<open>
  The loop \<open>while (bits_read < written_bits)\<close>; \<open>counter\<close> is the \<open>written_bits\<close>
  that \<open>decode\<close> reads from the end of the buffer. The loop need not end (a header with
  \<open>max_depth_bits = 0\<close> and a positive counter reads nothing in each round), so
  not returning is the value \<open>None\<close>.
\<close>

partial_function (option) decode_loop ::
  "bytes_t \<Rightarrow> nat \<Rightarrow> shared_node \<Rightarrow> 32 word \<Rightarrow> reader \<Rightarrow> byte_t Occurrence list
     \<Rightarrow> (error + (byte_t Occurrence list \<times> reader)) option" where
  "decode_loop data max_depth_bits binary_tree counter r occurrences =
     (if bits_read r < unat counter then
        (case decode_letter data max_depth_bits binary_tree r of
           Inl e \<Rightarrow> Some (Inl e)
         | Inr (letter, r') \<Rightarrow>
             decode_loop data max_depth_bits binary_tree counter r'
               (occurrences @ [\<lparr>letter_value = letter, count_occ = 1\<rparr>]))
      else Some (Inr (occurrences, r)))"

declare decode_loop.simps [code]

text \<open>The \<open>uint32_t\<close> stored in the last four bytes, least significant byte first.\<close>

definition uint32_at :: "bytes_t \<Rightarrow> nat \<Rightarrow> 32 word" where
  "uint32_at data i =
     ucast (data ! i) OR push_bit 8 (ucast (data ! (i + 1)))
       OR push_bit 16 (ucast (data ! (i + 2))) OR push_bit 24 (ucast (data ! (i + 3)))"

text \<open>
  \<open>decode\<close>, up to the loop: the result of the loop with the reader's last state,
  an error where the source reads outside the buffer.
\<close>

definition decode_run ::
  "bytes_t \<Rightarrow> (error + (byte_t Occurrence list \<times> reader)) option" where
  "decode_run data =
     (let size = length data in
      if size < 4 then Some (Inl OutOfBounds)
      else
        (let max_depth_bits = unat (data ! 0);
             alphabet_size = unat (data ! 1) + 1;
             counter = uint32_at data (size - 4)
         in if size < 2 + alphabet_size then Some (Inl OutOfBounds)
            else
              (let alphabet = map (\<lambda>alphabet_index.
                                 \<lparr>lvalue = data ! (2 + alphabet_index), freq = 0\<rparr>)
                               [0..<alphabet_size];
                   binary_tree = build_tree (map lvalue alphabet)
               in decode_loop data max_depth_bits binary_tree counter
                    \<lparr>read_bytes = 2 + alphabet_size, read_bits_on_result_byte = 0,
                     bits_read = 0\<rparr> [])))"

definition decode :: "bytes_t \<Rightarrow> (error + bytes_t) option" where
  "decode data =
     map_option (map_sum id (\<lambda>(occurrences, r). map letter_value occurrences))
       (decode_run data)"

text \<open>A sort that meets the contract of \<open>std::sort\<close>, to run the codec with.\<close>

definition sort_by_highest_frequency :: "'s Letter list \<Rightarrow> 's Letter list" where
  "sort_by_highest_frequency alphabet = sort_key (\<lambda>a. - int (freq a)) alphabet"

subsection \<open>The bitstream, as a list of bits\<close>

text \<open>The bits of a byte and of a buffer, least significant bit of each byte first.\<close>

definition bits_of_byte :: "byte_t \<Rightarrow> bool list" where
  "bits_of_byte b = map (bit b) [0..<8]"

definition bits_of_bytes :: "bytes_t \<Rightarrow> bool list" where
  "bits_of_bytes bs = concat (map bits_of_byte bs)"

text \<open>The bits \<open>method1\<close> writes for one letter, and for a sequence of letters.\<close>

definition letter_bits :: "shared_node \<Rightarrow> nat \<Rightarrow> ('a::len) word \<Rightarrow> bool list" where
  "letter_bits binary_tree max_depth_bits x =
     (let pathInfo = snd (path_info PathInfo_new binary_tree x)
      in map (bit (depth pathInfo)) [0..<max_depth_bits]
         @ map (bit (bit_path pathInfo)) [0..<depth pathInfo])"

definition path_bits :: "shared_node \<Rightarrow> nat \<Rightarrow> ('a::len) word list \<Rightarrow> bool list" where
  "path_bits binary_tree max_depth_bits xs = concat (map (letter_bits binary_tree max_depth_bits) xs)"

text \<open>Writing a list of bits: \<open>write_bit\<close> for a set bit, then \<open>check_bit\<close>.\<close>

definition put_bits :: "bool list \<Rightarrow> writer \<Rightarrow> writer" where
  "put_bits bs w = foldl (\<lambda>w b. check_bit (if b then write_bit w else w)) w bs"

text \<open>
  The state of the writer between two bits: the cursor is inside the byte, and the
  working byte has no bit at or above the cursor. The bits it has written so far.
\<close>

definition writer_ok :: "writer \<Rightarrow> bool" where
  "writer_ok w =
     (written_bits_on_result_byte w < 8 \<and>
      take_bit (written_bits_on_result_byte w) (result_byte w) = result_byte w)"

definition writer_bits :: "writer \<Rightarrow> bool list" where
  "writer_bits w =
     bits_of_bytes (result w) @ take (written_bits_on_result_byte w) (bits_of_byte (result_byte w))"

text \<open>The values of the local variables of \<open>encode\<close>, and the bits it writes.\<close>

definition encode_alphabet ::
  "(('a::len) word Letter list \<Rightarrow> 'a word Letter list) \<Rightarrow> 'a word list \<Rightarrow> 'a word Letter list" where
  "encode_alphabet std_sort values = std_sort (construct_alphabet (store_contiguous_values values))"

definition encode_tree ::
  "(('a::len) word Letter list \<Rightarrow> 'a word Letter list) \<Rightarrow> 'a word list \<Rightarrow> shared_node" where
  "encode_tree std_sort values = build_tree (map lvalue (encode_alphabet std_sort values))"

definition encode_depth_bits ::
  "(('a::len) word Letter list \<Rightarrow> 'a word Letter list) \<Rightarrow> 'a word list \<Rightarrow> nat" where
  "encode_depth_bits std_sort values = BitsNeeded (height (encode_tree std_sort values))"

definition encode_header ::
  "(('a::len) word Letter list \<Rightarrow> 'a word Letter list) \<Rightarrow> 'a word list \<Rightarrow> bytes_t" where
  "encode_header std_sort values =
     [of_nat (encode_depth_bits std_sort values),
      ucast ((of_nat (length (encode_alphabet std_sort values)) :: 64 word) - 1)]
     @ map (\<lambda>letter. ucast (lvalue letter)) (encode_alphabet std_sort values)"

definition encoded_bits ::
  "(('a::len) word Letter list \<Rightarrow> 'a word Letter list) \<Rightarrow> 'a word list \<Rightarrow> bool list" where
  "encoded_bits std_sort values =
     path_bits (encode_tree std_sort values) (encode_depth_bits std_sort values) values"

text \<open>
  The reader stands at bit \<open>g\<close> of the buffer, seen as a list of bits, and has
  counted \<open>k\<close> bits.
\<close>

definition reader_at :: "reader \<Rightarrow> nat \<Rightarrow> nat \<Rightarrow> bool" where
  "reader_at r g k =
     (read_bytes r = g div 8 \<and> read_bits_on_result_byte r = g mod 8 \<and> bits_read r = k)"

text \<open>A sort function that keeps the contract of \<open>std::sort\<close> on every range.\<close>

definition std_sort_contract :: "('s Letter list \<Rightarrow> 's Letter list) \<Rightarrow> bool" where
  "std_sort_contract std_sort = (\<forall>xs. std_sort_post xs (std_sort xs))"

subsection \<open>The shape of the path tree\<close>

text \<open>
  The depth, counted from the node \<open>parent\<close>, at which \<open>insert(parent, value)\<close>
  places the new node: it follows the branches of \<open>insert_node\<close>.
\<close>

fun insert_depth :: "shared_node \<Rightarrow> nat" where
  "insert_depth (Node v l r) =
     (if l = Nullptr then 1
      else if r = Nullptr then 1
      else if count_nodes l \<le> count_nodes r then 1 + insert_depth l
      else 1 + insert_depth r)"

text \<open>The tree without its values.\<close>

fun shape :: "shared_node \<Rightarrow> shared_node" where
  "shape Nullptr = Nullptr"
| "shape (Node v l r) = Node 0 (shape l) (shape r)"

text \<open>
  The balance the insertions keep: the left subtree has the shape of the right one,
  or the shape the right one takes with its next insertion.
\<close>

fun balanced :: "shared_node \<Rightarrow> bool" where
  "balanced Nullptr = True"
| "balanced (Node v l r) =
     (balanced l \<and> balanced r \<and>
      (if l = Nullptr then r = Nullptr
       else if r = Nullptr then shape l = Node 0 Nullptr Nullptr
       else shape l = shape r \<or> shape l = shape (insert_node r (0 :: byte_t))))"

text \<open>The values of a subtree with the depths of their nodes, the root being at depth \<open>d\<close>.\<close>

fun node_depths :: "shared_node \<Rightarrow> nat \<Rightarrow> (int \<times> nat) set" where
  "node_depths Nullptr d = {}"
| "node_depths (Node v l r) d = {(v, d)} \<union> node_depths l (Suc d) \<union> node_depths r (Suc d)"

text \<open>
  \<open>encode\<close> with \<open>BitsNeeded\<close>, which bits.h defines and the sources do not hold, as
  the parameter \<open>bits_needed\<close>: the same statements, with
  \<open>max_depth_bits = bits_needed max_tree_depth\<close>. \<open>encode\<close> is \<open>encode_with BitsNeeded\<close>
  (lemma \<open>encode_with_BitsNeeded\<close>).
\<close>

definition encode_with ::
  "(nat \<Rightarrow> nat) \<Rightarrow> (('a::len) word Letter list \<Rightarrow> 'a word Letter list) \<Rightarrow> 'a word list
     \<Rightarrow> bytes_t" where
  "encode_with bits_needed std_sort values =
     (let occurrences = store_contiguous_values values;
          alphabet = std_sort (construct_alphabet occurrences);
          binary_tree = build_tree (map lvalue alphabet);
          max_tree_depth = height binary_tree;
          max_depth_bits = bits_needed max_tree_depth;
          header = [of_nat max_depth_bits, ucast ((of_nat (length alphabet) :: 64 word) - 1)]
                   @ map (\<lambda>letter. ucast (lvalue letter)) alphabet;
          w = foldl (encode_occurrence binary_tree max_depth_bits)
                \<lparr>result = header, result_byte = 0, written_bits_on_result_byte = 0,
                 written_bits = 0\<rparr> occurrences;
          flushed = (if written_bits_on_result_byte w > 0 then result w @ [result_byte w]
                     else result w)
      in flushed @ bytes_of_uint32 (written_bits w))"

text \<open>The values of its local variables that depend on \<open>bits_needed\<close>, and the bits it writes.\<close>

definition encode_depth_bits_with ::
  "(nat \<Rightarrow> nat) \<Rightarrow> (('a::len) word Letter list \<Rightarrow> 'a word Letter list) \<Rightarrow> 'a word list \<Rightarrow> nat" where
  "encode_depth_bits_with bits_needed std_sort values =
     bits_needed (height (encode_tree std_sort values))"

definition encode_header_with ::
  "(nat \<Rightarrow> nat) \<Rightarrow> (('a::len) word Letter list \<Rightarrow> 'a word Letter list) \<Rightarrow> 'a word list
     \<Rightarrow> bytes_t" where
  "encode_header_with bits_needed std_sort values =
     [of_nat (encode_depth_bits_with bits_needed std_sort values),
      ucast ((of_nat (length (encode_alphabet std_sort values)) :: 64 word) - 1)]
     @ map (\<lambda>letter. ucast (lvalue letter)) (encode_alphabet std_sort values)"

definition encoded_bits_with ::
  "(nat \<Rightarrow> nat) \<Rightarrow> (('a::len) word Letter list \<Rightarrow> 'a word Letter list) \<Rightarrow> 'a word list
     \<Rightarrow> bool list" where
  "encoded_bits_with bits_needed std_sort values =
     path_bits (encode_tree std_sort values) (encode_depth_bits_with bits_needed std_sort values)
       values"

subsection \<open>The library sort\<close>

text \<open>
  \<open>std::sort\<close> is library code, not among the sources. What follows is the sort of
  libstdc++ (bits/stl_algo.h and bits/stl_heap.h), written after the library: an
  introsort that partitions ranges of more than 16 elements around a median of
  three, falls back to a heap sort when the depth limit is used up, and finishes
  with an insertion sort. The array is a list, an iterator an index into it. The
  scans of \<open>__unguarded_partition\<close> and \<open>__unguarded_linear_insert\<close> carry no
  bound in the library, because an element that stops them is known to lie ahead;
  here the ends of the array are written as their bounds, so that every function
  is total.
\<close>

text \<open>The comparison \<open>encode\<close> passes to \<open>std::sort\<close>: \<open>a.freq > b.freq\<close>.\<close>

definition freq_comp :: "'s Letter \<Rightarrow> 's Letter \<Rightarrow> bool" where
  "freq_comp a b = (freq a > freq b)"

definition iter_swap :: "nat \<Rightarrow> nat \<Rightarrow> 'e list \<Rightarrow> 'e list" where
  "iter_swap i j xs = xs[i := xs ! j, j := xs ! i]"

text \<open>\<open>std::__lg\<close>: the position of the highest set bit.\<close>

fun lg :: "nat \<Rightarrow> nat" where
  "lg n = (if n < 2 then 0 else Suc (lg (n div 2)))"

declare lg.simps [simp del]

text \<open>\<open>__move_median_to_first(__result, __a, __b, __c, __comp)\<close>.\<close>

definition move_median_to_first ::
  "('e \<Rightarrow> 'e \<Rightarrow> bool) \<Rightarrow> 'e list \<Rightarrow> nat \<Rightarrow> nat \<Rightarrow> nat \<Rightarrow> nat \<Rightarrow> 'e list" where
  "move_median_to_first cmp xs result' a b c =
     (if cmp (xs ! a) (xs ! b) then
        (if cmp (xs ! b) (xs ! c) then iter_swap result' b xs
         else if cmp (xs ! a) (xs ! c) then iter_swap result' c xs
         else iter_swap result' a xs)
      else if cmp (xs ! a) (xs ! c) then iter_swap result' a xs
      else if cmp (xs ! b) (xs ! c) then iter_swap result' c xs
      else iter_swap result' b xs)"

text \<open>The two scans of \<open>__unguarded_partition\<close>.\<close>

function scan_first :: "('e \<Rightarrow> 'e \<Rightarrow> bool) \<Rightarrow> 'e list \<Rightarrow> nat \<Rightarrow> nat \<Rightarrow> nat" where
  "scan_first cmp xs pivot first =
     (if first < length xs \<and> cmp (xs ! first) (xs ! pivot)
      then scan_first cmp xs pivot (Suc first) else first)"
  by pat_completeness auto
termination
  by (relation "measure (\<lambda>(cmp, xs, pivot, first). length xs - first)") auto

declare scan_first.simps [simp del]

function scan_last :: "('e \<Rightarrow> 'e \<Rightarrow> bool) \<Rightarrow> 'e list \<Rightarrow> nat \<Rightarrow> nat \<Rightarrow> nat" where
  "scan_last cmp xs pivot last' =
     (if 0 < last' \<and> cmp (xs ! pivot) (xs ! last')
      then scan_last cmp xs pivot (last' - 1) else last')"
  by pat_completeness auto
termination
  by (relation "measure (\<lambda>(cmp, xs, pivot, last'). last')") auto

declare scan_last.simps [simp del]

lemma scan_first_ge: "first \<le> scan_first cmp xs pivot first"
proof (induction cmp xs pivot first rule: scan_first.induct)
  case (1 cmp xs pivot first)
  then show ?case by (subst scan_first.simps) auto
qed

lemma scan_last_le: "scan_last cmp xs pivot last' \<le> last'"
proof (induction cmp xs pivot last' rule: scan_last.induct)
  case (1 cmp xs pivot last')
  then show ?case by (subst scan_last.simps) auto
qed

text \<open>\<open>__unguarded_partition(__first, __last, __pivot, __comp)\<close>: the cut and the array.\<close>

function unguarded_partition ::
  "('e \<Rightarrow> 'e \<Rightarrow> bool) \<Rightarrow> 'e list \<Rightarrow> nat \<Rightarrow> nat \<Rightarrow> nat \<Rightarrow> nat \<times> 'e list" where
  "unguarded_partition cmp xs first last' pivot =
     (let first1 = scan_first cmp xs pivot first;
          last1 = scan_last cmp xs pivot (last' - 1)
      in if \<not> first1 < last1 then (first1, xs)
         else unguarded_partition cmp (iter_swap first1 last1 xs) (Suc first1) last1 pivot)"
  by pat_completeness auto
termination
proof (relation "measure (\<lambda>(cmp, xs, first, last', pivot). last' - first)", goal_cases)
  case 1
  then show ?case by simp
next
  case (2 cmp xs first last' pivot first1 last1)
  then show ?case
    using scan_first_ge [of first cmp xs pivot] scan_last_le [of cmp xs pivot "last' - 1"]
    by simp
qed

declare unguarded_partition.simps [simp del]

text \<open>\<open>__unguarded_partition_pivot(__first, __last, __comp)\<close>.\<close>

definition unguarded_partition_pivot ::
  "('e \<Rightarrow> 'e \<Rightarrow> bool) \<Rightarrow> 'e list \<Rightarrow> nat \<Rightarrow> nat \<Rightarrow> nat \<times> 'e list" where
  "unguarded_partition_pivot cmp xs first last' =
     (let mid = first + (last' - first) div 2;
          xs1 = move_median_to_first cmp xs first (first + 1) mid (last' - 1)
      in unguarded_partition cmp xs1 (first + 1) last' first)"

text \<open>\<open>__push_heap(__first, __holeIndex, __topIndex, __value, __comp)\<close>.\<close>

function push_heap ::
  "('e \<Rightarrow> 'e \<Rightarrow> bool) \<Rightarrow> 'e list \<Rightarrow> nat \<Rightarrow> nat \<Rightarrow> nat \<Rightarrow> 'e \<Rightarrow> 'e list" where
  "push_heap cmp xs first holeIndex topIndex v =
     (let parent = (holeIndex - 1) div 2
      in if holeIndex > topIndex \<and> cmp (xs ! (first + parent)) v
         then push_heap cmp (xs[first + holeIndex := xs ! (first + parent)]) first parent topIndex v
         else xs[first + holeIndex := v])"
  by pat_completeness auto
termination
  by (relation "measure (\<lambda>(cmp, xs, first, holeIndex, topIndex, v). holeIndex)") auto

declare push_heap.simps [simp del]

text \<open>
  \<open>__adjust_heap(__first, __holeIndex, __len, __value, __comp)\<close>: its \<open>while\<close> loop,
  which returns the array, \<open>__holeIndex\<close> and \<open>__secondChild\<close>, then the step for
  a last node with one child and the call of \<open>__push_heap\<close>. The lengths are signed
  in the library; \<open>(__len - 2) / 2\<close> is compared as an \<open>int\<close>.
\<close>

function adjust_heap_loop ::
  "('e \<Rightarrow> 'e \<Rightarrow> bool) \<Rightarrow> 'e list \<Rightarrow> nat \<Rightarrow> nat \<Rightarrow> nat \<Rightarrow> nat \<Rightarrow> 'e list \<times> nat \<times> nat" where
  "adjust_heap_loop cmp xs first holeIndex secondChild len =
     (if secondChild < (len - 1) div 2 then
        (let sc = 2 * (secondChild + 1);
             sc1 = (if cmp (xs ! (first + sc)) (xs ! (first + (sc - 1))) then sc - 1 else sc)
         in adjust_heap_loop cmp (xs[first + holeIndex := xs ! (first + sc1)]) first sc1 sc1 len)
      else (xs, holeIndex, secondChild))"
  by pat_completeness auto
termination
  by (relation "measure (\<lambda>(cmp, xs, first, holeIndex, secondChild, len). len - secondChild)")
    auto

declare adjust_heap_loop.simps [simp del]

definition adjust_heap ::
  "('e \<Rightarrow> 'e \<Rightarrow> bool) \<Rightarrow> 'e list \<Rightarrow> nat \<Rightarrow> nat \<Rightarrow> nat \<Rightarrow> 'e \<Rightarrow> 'e list" where
  "adjust_heap cmp xs first holeIndex len v =
     (case adjust_heap_loop cmp xs first holeIndex holeIndex len of
        (xs1, hole1, secondChild) \<Rightarrow>
          if even len \<and> int secondChild = (int len - 2) div 2
          then push_heap cmp (xs1[first + hole1 := xs1 ! (first + (2 * (secondChild + 1) - 1))])
                 first (2 * (secondChild + 1) - 1) holeIndex v
          else push_heap cmp xs1 first hole1 holeIndex v)"

text \<open>\<open>__pop_heap(__first, __last, __result, __comp)\<close>.\<close>

definition pop_heap ::
  "('e \<Rightarrow> 'e \<Rightarrow> bool) \<Rightarrow> 'e list \<Rightarrow> nat \<Rightarrow> nat \<Rightarrow> nat \<Rightarrow> 'e list" where
  "pop_heap cmp xs first last' result' =
     adjust_heap cmp (xs[result' := xs ! first]) first 0 (last' - first) (xs ! result')"

text \<open>\<open>__make_heap(__first, __last, __comp)\<close> and its loop over \<open>__parent\<close>.\<close>

fun make_heap_loop ::
  "('e \<Rightarrow> 'e \<Rightarrow> bool) \<Rightarrow> 'e list \<Rightarrow> nat \<Rightarrow> nat \<Rightarrow> nat \<Rightarrow> 'e list" where
  "make_heap_loop cmp xs first len 0 = adjust_heap cmp xs first 0 len (xs ! first)"
| "make_heap_loop cmp xs first len (Suc parent) =
     make_heap_loop cmp (adjust_heap cmp xs first (Suc parent) len (xs ! (first + Suc parent)))
       first len parent"

definition make_heap :: "('e \<Rightarrow> 'e \<Rightarrow> bool) \<Rightarrow> 'e list \<Rightarrow> nat \<Rightarrow> nat \<Rightarrow> 'e list" where
  "make_heap cmp xs first last' =
     (if last' - first < 2 then xs
      else make_heap_loop cmp xs first (last' - first) ((last' - first - 2) div 2))"

text \<open>\<open>__sort_heap(__first, __last, __comp)\<close>.\<close>

function sort_heap :: "('e \<Rightarrow> 'e \<Rightarrow> bool) \<Rightarrow> 'e list \<Rightarrow> nat \<Rightarrow> nat \<Rightarrow> 'e list" where
  "sort_heap cmp xs first last' =
     (if last' - first > 1
      then sort_heap cmp (pop_heap cmp xs first (last' - 1) (last' - 1)) first (last' - 1)
      else xs)"
  by pat_completeness auto
termination
  by (relation "measure (\<lambda>(cmp, xs, first, last'). last' - first)") auto

declare sort_heap.simps [simp del]

text \<open>\<open>__heap_select\<close> and \<open>__partial_sort(__first, __middle, __last, __comp)\<close>.\<close>

definition heap_select ::
  "('e \<Rightarrow> 'e \<Rightarrow> bool) \<Rightarrow> 'e list \<Rightarrow> nat \<Rightarrow> nat \<Rightarrow> nat \<Rightarrow> 'e list" where
  "heap_select cmp xs first middle last' =
     foldl (\<lambda>xs i. if cmp (xs ! i) (xs ! first) then pop_heap cmp xs first middle i else xs)
       (make_heap cmp xs first middle) [middle..<last']"

definition partial_sort ::
  "('e \<Rightarrow> 'e \<Rightarrow> bool) \<Rightarrow> 'e list \<Rightarrow> nat \<Rightarrow> nat \<Rightarrow> nat \<Rightarrow> 'e list" where
  "partial_sort cmp xs first middle last' =
     sort_heap cmp (heap_select cmp xs first middle last') first middle"

text \<open>\<open>__introsort_loop(__first, __last, __depth_limit, __comp)\<close>, with \<open>_S_threshold = 16\<close>.\<close>

function introsort_loop ::
  "('e \<Rightarrow> 'e \<Rightarrow> bool) \<Rightarrow> 'e list \<Rightarrow> nat \<Rightarrow> nat \<Rightarrow> nat \<Rightarrow> 'e list" where
  "introsort_loop cmp xs first last' depth_limit =
     (if last' - first > 16 then
        (if depth_limit = 0 then partial_sort cmp xs first last' last'
         else
           (case unguarded_partition_pivot cmp xs first last' of
              (cut', xs1) \<Rightarrow>
                introsort_loop cmp (introsort_loop cmp xs1 cut' last' (depth_limit - 1))
                  first cut' (depth_limit - 1)))
      else xs)"
  by pat_completeness auto
termination
  by (relation "measure (\<lambda>(cmp, xs, first, last', depth_limit). depth_limit)") auto

declare introsort_loop.simps [simp del]

text \<open>
  \<open>__unguarded_linear_insert(__last, __comp)\<close>: the loop, with the value held in
  \<open>__val\<close>, the hole at \<open>__last\<close> and \<open>__next = __last - 1\<close>.
\<close>

function linear_insert :: "('e \<Rightarrow> 'e \<Rightarrow> bool) \<Rightarrow> 'e list \<Rightarrow> nat \<Rightarrow> 'e \<Rightarrow> 'e list" where
  "linear_insert cmp xs last' v =
     (if 0 < last' \<and> cmp v (xs ! (last' - 1))
      then linear_insert cmp (xs[last' := xs ! (last' - 1)]) (last' - 1) v
      else xs[last' := v])"
  by pat_completeness auto
termination
  by (relation "measure (\<lambda>(cmp, xs, last', v). last')") auto

declare linear_insert.simps [simp del]

definition unguarded_linear_insert :: "('e \<Rightarrow> 'e \<Rightarrow> bool) \<Rightarrow> 'e list \<Rightarrow> nat \<Rightarrow> 'e list" where
  "unguarded_linear_insert cmp xs last' = linear_insert cmp xs last' (xs ! last')"

text \<open>
  \<open>__insertion_sort(__first, __last, __comp)\<close>; the first branch moves the range
  \<open>[__first, __i)\<close> one place up and puts the value at \<open>__first\<close>.
\<close>

definition insertion_sort ::
  "('e \<Rightarrow> 'e \<Rightarrow> bool) \<Rightarrow> 'e list \<Rightarrow> nat \<Rightarrow> nat \<Rightarrow> 'e list" where
  "insertion_sort cmp xs first last' =
     (if first = last' then xs
      else foldl (\<lambda>xs i.
             if cmp (xs ! i) (xs ! first)
             then take first xs @ [xs ! i] @ take (i - first) (drop first xs) @ drop (Suc i) xs
             else unguarded_linear_insert cmp xs i)
           xs [first + 1..<last'])"

definition unguarded_insertion_sort ::
  "('e \<Rightarrow> 'e \<Rightarrow> bool) \<Rightarrow> 'e list \<Rightarrow> nat \<Rightarrow> nat \<Rightarrow> 'e list" where
  "unguarded_insertion_sort cmp xs first last' =
     foldl (\<lambda>xs i. unguarded_linear_insert cmp xs i) xs [first..<last']"

definition final_insertion_sort ::
  "('e \<Rightarrow> 'e \<Rightarrow> bool) \<Rightarrow> 'e list \<Rightarrow> nat \<Rightarrow> nat \<Rightarrow> 'e list" where
  "final_insertion_sort cmp xs first last' =
     (if last' - first > 16
      then unguarded_insertion_sort cmp (insertion_sort cmp xs first (first + 16)) (first + 16) last'
      else insertion_sort cmp xs first last')"

text \<open>\<open>std::sort(__first, __last, __comp)\<close> on the whole array.\<close>

text \<open>
  What \<open>__unguarded_linear_insert\<close> does to the range below \<open>__last\<close>, read from
  \<open>__last\<close> downwards: the value passes the elements it compares before.
\<close>

fun insert_downwards :: "('e \<Rightarrow> 'e \<Rightarrow> bool) \<Rightarrow> 'e \<Rightarrow> 'e list \<Rightarrow> 'e list" where
  "insert_downwards cmp v [] = [v]"
| "insert_downwards cmp v (y # ys) =
     (if cmp v y then y # insert_downwards cmp v ys else v # y # ys)"

text \<open>
  The order of a stable sort by highest frequency, for letters numbered by \<open>e\<close> in
  the order they had before the sort.
\<close>

definition stable_before :: "('s Letter \<Rightarrow> nat) \<Rightarrow> 's Letter \<Rightarrow> 's Letter \<Rightarrow> bool" where
  "stable_before e a b = (freq b < freq a \<or> (freq a = freq b \<and> e a < e b))"

definition stl_sort :: "('e \<Rightarrow> 'e \<Rightarrow> bool) \<Rightarrow> 'e list \<Rightarrow> 'e list" where
  "stl_sort cmp xs =
     (if 0 \<noteq> length xs
      then final_insertion_sort cmp
             (introsort_loop cmp xs 0 (length xs) (lg (length xs) * 2)) 0 (length xs)
      else xs)"

section \<open>The path tree\<close>

lemma count_nodes_total: "n \<noteq> Nullptr \<Longrightarrow> total_nodes n = count_nodes n + 1"
  by (induction n) auto

lemma insert_node_not_null [simp]: "n \<noteq> Nullptr \<Longrightarrow> insert_node n x \<noteq> Nullptr"
  by (cases n) auto

lemma insert_value_not_null [simp]: "n \<noteq> Nullptr \<Longrightarrow> insert_value n x \<noteq> Nullptr"
  by (cases n) auto

lemma left_filled_first_insert_node:
  "n \<noteq> Nullptr \<Longrightarrow> left_filled_first n \<Longrightarrow> left_filled_first (insert_node n x)"
  by (induction n x rule: insert_node.induct) auto

lemma left_filled_first_insert_value:
  "n \<noteq> Nullptr \<Longrightarrow> left_filled_first n \<Longrightarrow> left_filled_first (insert_value n x)"
  using left_filled_first_insert_node [of n x] by (cases n) auto

lemma foldl_insert_value_inv:
  "n \<noteq> Nullptr \<Longrightarrow> left_filled_first n \<Longrightarrow>
   foldl insert_value n xs \<noteq> Nullptr \<and> left_filled_first (foldl insert_value n xs)"
  by (induction xs arbitrary: n) (auto simp: left_filled_first_insert_value)

lemma build_tree_not_null [simp]: "build_tree xs \<noteq> Nullptr"
  using foldl_insert_value_inv [of BinaryTree xs] by (simp add: build_tree_def BinaryTree_def)

text \<open>
  C6. In every tree built by a sequence of \<open>insert\<close> calls, a node with one child
  has it in the left slot; and an insertion at a node with both slots filled goes
  into the child subtree with the smaller number of nodes, the left one on a tie,
  leaving the other subtree as it was.
\<close>

theorem insert_left_first_and_balance:
  "left_filled_first (build_tree xs) \<and>
   (l \<noteq> Nullptr \<and> r \<noteq> Nullptr \<longrightarrow>
      insert_node (Node v l r) x =
        (if total_nodes l \<le> total_nodes r then Node v (insert_node l x) r
         else Node v l (insert_node r x)))"
proof
  show "left_filled_first (build_tree xs)"
    using foldl_insert_value_inv [of BinaryTree xs]
    by (simp add: build_tree_def BinaryTree_def)
next
  show "l \<noteq> Nullptr \<and> r \<noteq> Nullptr \<longrightarrow>
      insert_node (Node v l r) x =
        (if total_nodes l \<le> total_nodes r then Node v (insert_node l x) r
         else Node v l (insert_node r x))"
    by (simp add: count_nodes_total)
qed

theorem insert_left_first_and_balance_witness:
  "left_filled_first (build_tree [1, 2, 3, 4 :: byte_t]) \<and>
   insert_node (Node 1 (Node 2 (Node 4 Nullptr Nullptr) Nullptr) (Node 3 Nullptr Nullptr)) (5 :: byte_t)
     = Node 1 (Node 2 (Node 4 Nullptr Nullptr) Nullptr) (Node 3 (Node 5 Nullptr Nullptr) Nullptr)"
  using insert_left_first_and_balance
    [of "[1, 2, 3, 4 :: byte_t]" "Node 2 (Node 4 Nullptr Nullptr) Nullptr"
        "Node 3 Nullptr Nullptr" 1 "5 :: byte_t"]
  by simp

lemma path_info_node_found:
  "path_info_node p n d x = (True, p') \<Longrightarrow>
   d \<le> depth p' \<and>
   (\<forall>q::PathInfo. depth q = depth p' \<and> (\<forall>i. d \<le> i \<and> i < depth p' \<longrightarrow> bit (bit_path q) i = bit (bit_path p') i)
      \<longrightarrow> (\<exists>l r. find_value_loop q d n = Inr (Node (uint x) l r)))"
proof (induction p n d x arbitrary: p' rule: path_info_node.induct)
  case (1 pathInfo d x)
  then show ?case by simp
next
  case (2 pathInfo v l r d x)
  show ?case
  proof (cases "v = uint x")
    case True
    with 2(3) have "p' = pathInfo\<lparr>depth := d\<rparr>" by simp
    then show ?thesis using True by (simp add: find_value_loop.simps [of _ d])
  next
    case False
    obtain fl p1 where L: "path_info_node pathInfo l (Suc d) x = (fl, p1)"
      by (cases "path_info_node pathInfo l (Suc d) x")
    show ?thesis
    proof (cases fl)
      case True
      with False L 2(3) have p': "p' = p1\<lparr>bit_path := unset_bit d (bit_path p1)\<rparr>" by simp
      from 2(1) [OF False] L True
      have IH: "Suc d \<le> depth p1"
        "\<And>q::PathInfo. depth q = depth p1 \<Longrightarrow> (\<forall>i. Suc d \<le> i \<and> i < depth p1 \<longrightarrow> bit (bit_path q) i = bit (bit_path p1) i)
           \<Longrightarrow> \<exists>l' r'. find_value_loop q (Suc d) l = Inr (Node (uint x) l' r')"
        by auto
      show ?thesis
      proof (intro conjI allI impI)
        show "d \<le> depth p'" using IH(1) p' by simp
      next
        fix q :: PathInfo assume q: "depth q = depth p' \<and> (\<forall>i. d \<le> i \<and> i < depth p' \<longrightarrow> bit (bit_path q) i = bit (bit_path p') i)"
        then have "\<not> bit (bit_path q) d" using p' IH(1) by (simp add: bit_unset_bit_iff)
        moreover have "\<exists>l' r'. find_value_loop q (Suc d) l = Inr (Node (uint x) l' r')"
          by (rule IH(2)) (use q p' in \<open>auto simp: bit_unset_bit_iff\<close>)
        ultimately show "\<exists>l' r'. find_value_loop q d (Node v l r) = Inr (Node (uint x) l' r')"
          using q p' IH(1) by (simp add: find_value_loop.simps [of q d])
      qed
    next
      case fl: False
      obtain fr p2 where R: "path_info_node (p1\<lparr>bit_path := set_bit d (bit_path p1)\<rparr>) r (Suc d) x = (fr, p2)"
        by (cases "path_info_node (p1\<lparr>bit_path := set_bit d (bit_path p1)\<rparr>) r (Suc d) x")
      with False L fl 2(3) have fr: fr and p': "p' = p2\<lparr>bit_path := set_bit d (bit_path p2)\<rparr>"
        by (auto split: if_splits)
      from 2(2) [OF False L [symmetric]] fl R fr
      have IH: "Suc d \<le> depth p2"
        "\<And>q::PathInfo. depth q = depth p2 \<Longrightarrow> (\<forall>i. Suc d \<le> i \<and> i < depth p2 \<longrightarrow> bit (bit_path q) i = bit (bit_path p2) i)
           \<Longrightarrow> \<exists>l' r'. find_value_loop q (Suc d) r = Inr (Node (uint x) l' r')"
        by auto
      show ?thesis
      proof (intro conjI allI impI)
        show "d \<le> depth p'" using IH(1) p' by simp
      next
        fix q :: PathInfo assume q: "depth q = depth p' \<and> (\<forall>i. d \<le> i \<and> i < depth p' \<longrightarrow> bit (bit_path q) i = bit (bit_path p') i)"
        then have "bit (bit_path q) d" using p' IH(1) by (simp add: bit_set_bit_iff)
        moreover have "\<exists>l' r'. find_value_loop q (Suc d) r = Inr (Node (uint x) l' r')"
          by (rule IH(2)) (use q p' in \<open>auto simp: bit_set_bit_iff\<close>)
        ultimately show "\<exists>l' r'. find_value_loop q d (Node v l r) = Inr (Node (uint x) l' r')"
          using q p' IH(1) by (simp add: find_value_loop.simps [of q d])
      qed
    qed
  qed
qed

lemma path_info_node_finds:
  "uint x \<in> node_values n \<Longrightarrow> fst (path_info_node p n d x)"
proof (induction p n d x rule: path_info_node.induct)
  case (1 pathInfo d x)
  then show ?case by simp
next
  case (2 pathInfo v l r d x)
  show ?case
  proof (cases "v = uint x")
    case True
    then show ?thesis by simp
  next
    case False
    obtain fl p1 where L: "path_info_node pathInfo l (Suc d) x = (fl, p1)"
      by (cases "path_info_node pathInfo l (Suc d) x")
    obtain fr p2 where R: "path_info_node (p1\<lparr>bit_path := set_bit d (bit_path p1)\<rparr>) r (Suc d) x = (fr, p2)"
      by (cases "path_info_node (p1\<lparr>bit_path := set_bit d (bit_path p1)\<rparr>) r (Suc d) x")
    show ?thesis
    proof (cases fl)
      case True
      then show ?thesis using False L by simp
    next
      case fl: False
      then have "uint x \<notin> node_values l" using 2(1) [OF False] L by auto
      then have "uint x \<in> node_values r" using 2(3) False by auto
      then have fr using 2(2) [OF False L [symmetric] fl] R by simp
      then show ?thesis using False L fl R by simp
    qed
  qed
qed

lemma node_values_insert_node:
  "n \<noteq> Nullptr \<Longrightarrow> node_values (insert_node n x) = insert (uint x) (node_values n)"
  by (induction n x rule: insert_node.induct) auto

lemma node_values_insert_value:
  "n \<noteq> Nullptr \<Longrightarrow> node_values (insert_value n x) \<union> {INVALID} = insert (uint x) (node_values n) \<union> {INVALID}"
  using node_values_insert_node [of n x] by (cases n) auto

lemma build_tree_snoc: "build_tree (xs @ [x]) = insert_value (build_tree xs) x"
  by (simp add: build_tree_def)

lemma uint_not_INVALID [simp]: "uint x \<noteq> INVALID"
  by (simp add: INVALID_def) (metis uint_ge_0 not_one_le_zero neg_0_le_iff_le  order_trans zero_le_one )

lemma node_values_build_tree:
  "node_values (build_tree xs) \<union> {INVALID} = uint ` set xs \<union> {INVALID}"
proof (induction xs rule: rev_induct)
  case Nil
  then show ?case by (simp add: build_tree_def BinaryTree_def)
next
  case (snoc x xs)
  then show ?case
    using node_values_insert_value [of "build_tree xs" x]
    by (simp add: build_tree_snoc) blast
qed

text \<open>
  C3. For a tree built by a sequence of \<open>insert\<close> calls and a symbol that was
  inserted, \<open>path_info\<close> succeeds, and \<open>find_value\<close> on the depth and bit path
  it produced walks to a node holding that symbol.
\<close>

theorem find_value_inverts_path_info:
  "x \<in> set xs \<Longrightarrow>
   fst (path_info p0 (build_tree xs) x) \<and>
   find_value (build_tree xs) (snd (path_info p0 (build_tree xs) x)) = Inr x"
proof -
  assume x: "x \<in> set xs"
  let ?t = "build_tree xs"
  have "uint x \<in> node_values ?t"
    using node_values_build_tree [of xs] x uint_not_INVALID [of x] by blast
  then have f: "fst (path_info_node p0 ?t 0 x)" by (rule path_info_node_finds)
  then obtain p where p: "path_info_node p0 ?t 0 x = (True, p)"
    by (cases "path_info_node p0 ?t 0 x") auto
  from path_info_node_found [OF p]
  obtain l r where "find_value_loop p 0 ?t = Inr (Node (uint x) l r)" by blast
  then show ?thesis using p by (simp add: path_info_def find_value_def)
qed

theorem find_value_inverts_path_info_witness:
  "(67 :: byte_t) \<in> set [65, 66, 67, 68] \<and>
   fst (path_info PathInfo_new (build_tree [65, 66, 67, 68 :: byte_t]) (67 :: byte_t)) \<and>
   find_value (build_tree [65, 66, 67, 68 :: byte_t])
     (snd (path_info PathInfo_new (build_tree [65, 66, 67, 68 :: byte_t]) (67 :: byte_t))) = Inr (67 :: byte_t)"
  using find_value_inverts_path_info [of "67 :: byte_t" "[65, 66, 67, 68]" PathInfo_new]
  by simp

section \<open>The run-length collapser\<close>

lemma extend_occurrence_spec:
  "extend_occurrence v c xs = (c', rest) \<Longrightarrow>
   \<exists>n. xs = replicate n v @ rest \<and> unat c' = unat c + n \<and>
       (c' = 255 \<or> rest = [] \<or> hd rest \<noteq> v)"
proof (induction v c xs arbitrary: c' rest rule: extend_occurrence.induct)
  case (1 v c)
  then show ?case by auto
next
  case (2 v c x xs)
  show ?case
  proof (cases "c = 255 \<or> v \<noteq> x")
    case True
    with 2(2) have "c' = c" "rest = x # xs" by (auto split: if_splits)
    with True show ?thesis by (intro exI [of _ 0]) auto
  next
    case False
    then have c: "c \<noteq> 255" and x: "v = x" by auto
    with 2(2) have "extend_occurrence v (c + 1) xs = (c', rest)" by simp
    from 2(1) [OF c _ this] x obtain n where
      n: "xs = replicate n v @ rest" "unat c' = unat (c + 1) + n"
         "c' = 255 \<or> rest = [] \<or> hd rest \<noteq> v" by auto
    have "unat c \<noteq> unat (255 :: byte_t)" using c by (simp only: word_unat_eq_iff [symmetric] not_False_eq_True)
    moreover have "unat c < 256" using unsigned_less [of c] by simp
    ultimately have "unat c < 255" by simp
    then have "unat (c + 1) = unat c + 1" by (simp add: unat_word_ariths)
    with n x show ?thesis by (intro exI [of _ "Suc n"]) auto
  qed
qed


lemma unat_byte_le_255: "unat (c :: byte_t) \<le> 255"
  using unsigned_less [of c, where 'a = nat] by simp

lemma expand_occurrences_Cons:
  "expand_occurrences (occ # occs) =
     replicate (unat (count_occ occ)) (letter_value occ) @ expand_occurrences occs"
  by (simp add: expand_occurrences_def)

lemma store_contiguous_values_expand:
  "expand_occurrences (store_contiguous_values B) = B"
proof (induction B rule: store_contiguous_values.induct)
  case 1
  then show ?case by (simp add: expand_occurrences_def)
next
  case (2 x xs)
  obtain c rest where e: "extend_occurrence x 1 xs = (c, rest)"
    by (cases "extend_occurrence x 1 xs")
  from extend_occurrence_spec [OF e] obtain n where
    n: "xs = replicate n x @ rest" "unat c = 1 + n" by auto
  have "expand_occurrences (store_contiguous_values rest) = rest"
    using 2 [OF e [symmetric]] by simp
  then show ?case using e n by (simp add: expand_occurrences_Cons)
qed

lemma store_contiguous_values_count:
  "occ \<in> set (store_contiguous_values B) \<Longrightarrow> 1 \<le> unat (count_occ occ)"
proof (induction B rule: store_contiguous_values.induct)
  case 1
  then show ?case by simp
next
  case (2 x xs)
  obtain c rest where e: "extend_occurrence x 1 xs = (c, rest)"
    by (cases "extend_occurrence x 1 xs")
  from extend_occurrence_spec [OF e] obtain n where "unat c = 1 + n" by auto
  then show ?case using 2 e by auto
qed

lemma expand_runs_Cons: "expand_runs ((s, k) # rs) = replicate k s @ expand_runs rs"
  by (simp add: expand_runs_def)

lemma drop_runs:
  "valid_runs rs \<Longrightarrow>
   \<exists>rs'. valid_runs rs' \<and> expand_runs rs' = drop k (expand_runs rs) \<and> length rs' \<le> length rs"
proof (induction rs arbitrary: k)
  case Nil
  then show ?case by (intro exI [of _ "[]"]) (simp add: expand_runs_def)
next
  case (Cons r rs)
  obtain s c where r: "r = (s, c)" by (cases r)
  from Cons.prems r have v: "valid_runs rs" and c: "1 \<le> c" "c \<le> 255"
    by (auto simp: valid_runs_def)
  show ?case
  proof (cases "k < c")
    case True
    have "valid_runs ((s, c - k) # rs)" using v c True by (auto simp: valid_runs_def)
    moreover have "expand_runs ((s, c - k) # rs) = drop k (expand_runs (r # rs))"
      using True r by (simp add: expand_runs_Cons)
    ultimately show ?thesis by (intro exI [of _ "(s, c - k) # rs"]) simp
  next
    case False
    from Cons.IH [OF v, of "k - c"] obtain rs' where
      "valid_runs rs'" "expand_runs rs' = drop (k - c) (expand_runs rs)" "length rs' \<le> length rs"
      by blast
    then show ?thesis using False r by (intro exI [of _ rs']) (simp add: expand_runs_Cons)
  qed
qed

lemma store_contiguous_values_minimal:
  "valid_runs rs \<Longrightarrow> expand_runs rs = B \<Longrightarrow> length (store_contiguous_values B) \<le> length rs"
proof (induction B arbitrary: rs rule: store_contiguous_values.induct)
  case 1
  then show ?case by simp
next
  case (2 x xs)
  obtain c rest where e: "extend_occurrence x 1 xs = (c, rest)"
    by (cases "extend_occurrence x 1 xs")
  from extend_occurrence_spec [OF e] obtain n where
    n: "xs = replicate n x @ rest" "unat c = 1 + n" "c = 255 \<or> rest = [] \<or> hd rest \<noteq> x"
    by auto
  from 2(3) obtain r t where rs: "rs = r # t" by (cases rs) (auto simp: expand_runs_def)
  obtain s k where r: "r = (s, k)" by (cases r)
  from 2(2) rs r have vt: "valid_runs t" and k: "1 \<le> k" "k \<le> 255"
    by (auto simp: valid_runs_def)
  from 2(3) rs r have ex: "replicate k s @ expand_runs t = replicate (Suc n) x @ rest"
    using n(1) by (simp add: expand_runs_Cons)
  have kn: "k \<le> Suc n"
  proof (rule ccontr)
    assume "\<not> k \<le> Suc n"
    then have gt: "Suc n < k" by simp
    have "c \<noteq> 255" using n(2) gt k unat_byte_le_255 [of c] by auto
    moreover have "rest \<noteq> []"
    proof
      assume "rest = []"
      then have "length (replicate k s @ expand_runs t) = Suc n" using ex by simp
      then show False using gt by simp
    qed
    moreover have "hd rest = x"
    proof -
      have "(replicate k s @ expand_runs t) ! 0 = s" using k by (simp add: nth_append)
      then have sx: "s = x" using ex by simp
      have "(replicate k s @ expand_runs t) ! Suc n = s" using gt by (simp add: nth_append)
      moreover have "(replicate (Suc n) x @ rest) ! Suc n = hd rest"
        using \<open>rest \<noteq> []\<close> by (simp add: nth_append hd_conv_nth)
      ultimately show ?thesis using ex sx by simp
    qed
    ultimately show False using n(3) by simp
  qed
  have "drop k (replicate k s @ expand_runs t) = drop k (replicate (Suc n) x @ rest)"
    using ex by simp
  then have "expand_runs t = replicate (Suc n - k) x @ rest"
    using kn by (simp del: replicate_Suc)
  then have "rest = drop (Suc n - k) (expand_runs t)" by simp
  with drop_runs [OF vt, of "Suc n - k"] obtain rs' where
    rs': "valid_runs rs'" "expand_runs rs' = rest" "length rs' \<le> length t" by auto
  have "length (store_contiguous_values rest) \<le> length rs'"
    using 2(1) [OF e [symmetric] rs'(1) rs'(2)] .
  then show ?case using e rs rs'(3) by simp
qed

text \<open>
  C5. No run has a count above 255 (nor an empty one), the runs spell out the input
  in order, so a stretch of equal symbols longer than 255 is split into consecutive
  runs, and no sequence of runs with counts from 1 to 255 that spells out the same
  input is shorter.
\<close>

theorem run_cap_and_minimal_runs:
  "(\<forall>occ \<in> set (store_contiguous_values B).
      1 \<le> unat (count_occ occ) \<and> unat (count_occ occ) \<le> 255) \<and>
   expand_occurrences (store_contiguous_values B) = B \<and>
   (\<forall>rs. valid_runs rs \<and> expand_runs rs = B \<longrightarrow>
      length (store_contiguous_values B) \<le> length rs)"
  using store_contiguous_values_count [of _ B] store_contiguous_values_expand [of B]
    store_contiguous_values_minimal [of _ B] unat_byte_le_255
  by blast


theorem run_cap_and_minimal_runs_witness:
  "store_contiguous_values (replicate 256 (65 :: byte_t) @ [66]) =
     [\<lparr>letter_value = 65, count_occ = 255\<rparr>, \<lparr>letter_value = 65, count_occ = 1\<rparr>,
      \<lparr>letter_value = 66, count_occ = 1\<rparr>] \<and>
   expand_occurrences (store_contiguous_values (replicate 256 (65 :: byte_t) @ [66])) =
     replicate 256 65 @ [66] \<and>
   valid_runs [(65 :: byte_t, 200), (65, 56), (66, 1)] \<and>
   expand_runs [(65 :: byte_t, 200), (65, 56), (66, 1)] = replicate 256 65 @ [66] \<and>
   length (store_contiguous_values (replicate 256 (65 :: byte_t) @ [66])) \<le> 3"
proof -
  let ?B = "replicate 256 (65 :: byte_t) @ [66]"
  let ?rs = "[(65 :: byte_t, 200 :: nat), (65, 56), (66, 1)]"
  have s: "store_contiguous_values ?B =
     [\<lparr>letter_value = 65, count_occ = 255\<rparr>, \<lparr>letter_value = 65, count_occ = 1\<rparr>,
      \<lparr>letter_value = 66, count_occ = 1\<rparr>]"
    by code_simp
  have v: "valid_runs ?rs" by (simp add: valid_runs_def)
  have e: "expand_runs ?rs = ?B"
    by code_simp
  from run_cap_and_minimal_runs [of ?B] v e
  have "expand_occurrences (store_contiguous_values ?B) = ?B"
    and "length (store_contiguous_values ?B) \<le> length ?rs"
    by blast+
  then show ?thesis using s v e by simp
qed

section \<open>The alphabet builder\<close>

lemma set_first_seen [simp]: "set (first_seen xs) = set xs"
  by (induction xs) auto

lemma distinct_first_seen [simp]: "distinct (first_seen xs)"
  by (induction xs) auto

lemma first_seen_replicate:
  "0 < k \<Longrightarrow> first_seen (replicate k x @ ys) = x # filter (\<lambda>y. y \<noteq> x) (first_seen ys)"
proof (induction k)
  case 0
  then show ?case by simp
next
  case (Suc k)
  then show ?case by (cases "k = 0") auto
qed

lemma lvalue_fold_occurrence:
  "map lvalue (fold_occurrence al occ) =
     (if letter_value occ \<in> set (map lvalue al) then map lvalue al
      else map lvalue al @ [letter_value occ])"
  by (induction al) auto

lemma lvalue_foldl_fold_occurrence:
  "map lvalue (foldl fold_occurrence al occs) =
     map lvalue al @ filter (\<lambda>v. v \<notin> set (map lvalue al)) (first_seen (map letter_value occs))"
proof (induction occs arbitrary: al)
  case Nil
  then show ?case by simp
next
  case (Cons occ occs)
  let ?x = "letter_value occ"
  let ?F = "first_seen (map letter_value occs)"
  have IH: "map lvalue (foldl fold_occurrence (fold_occurrence al occ) occs) =
      map lvalue (fold_occurrence al occ) @
      filter (\<lambda>v. v \<notin> set (map lvalue (fold_occurrence al occ))) ?F"
    by (rule Cons.IH)
  show ?case
  proof (cases "?x \<in> set (map lvalue al)")
    case True
    then have "filter (\<lambda>v. v \<notin> set (map lvalue al)) (filter (\<lambda>y. y \<noteq> ?x) ?F) =
        filter (\<lambda>v. v \<notin> set (map lvalue al)) ?F"
      unfolding filter_filter by (intro filter_cong [OF refl]) auto
    then show ?thesis using True IH
      by (simp add: lvalue_fold_occurrence del: set_map filter_filter)
  next
    case False
    have "filter (\<lambda>v. v \<notin> set (map lvalue al @ [?x])) ?F =
        filter (\<lambda>v. v \<notin> set (map lvalue al)) (filter (\<lambda>y. y \<noteq> ?x) ?F)"
      unfolding filter_filter by (intro filter_cong [OF refl]) auto
    then show ?thesis using False IH
      by (simp add: lvalue_fold_occurrence del: set_map set_append filter_filter)
  qed
qed

lemma first_seen_store_contiguous_values:
  "first_seen (map letter_value (store_contiguous_values B)) = first_seen B"
proof (induction B rule: store_contiguous_values.induct)
  case 1
  then show ?case by simp
next
  case (2 x xs)
  obtain c rest where e: "extend_occurrence x 1 xs = (c, rest)"
    by (cases "extend_occurrence x 1 xs")
  from extend_occurrence_spec [OF e] obtain n where
    n: "xs = replicate n x @ rest" "unat c = 1 + n" by auto
  have "first_seen (x # xs) = first_seen (replicate (Suc n) x @ rest)" using n by simp
  also have "\<dots> = x # filter (\<lambda>y. y \<noteq> x) (first_seen rest)"
    by (rule first_seen_replicate) simp
  finally show ?case using 2 [OF e [symmetric]] e by simp
qed

lemma lvalue_construct_alphabet:
  "map lvalue (construct_alphabet (store_contiguous_values B)) = first_seen B"
  by (simp add: construct_alphabet_def lvalue_foldl_fold_occurrence
      first_seen_store_contiguous_values)

lemma count_list_replicate: "count_list (replicate k x) v = (if x = v then k else 0)"
  by (induction k) auto

lemma freq_of_Nil [simp]: "freq_of [] v = 0"
  by (simp add: freq_of_def)

lemma freq_of_fold_occurrence:
  "freq_of (fold_occurrence al occ) v =
     freq_of al v + (if letter_value occ = v then unat (count_occ occ) else 0)"
  by (induction al) (auto simp: freq_of_def)

lemma freq_of_foldl_fold_occurrence:
  "freq_of (foldl fold_occurrence al occs) v = freq_of al v + count_list (expand_occurrences occs) v"
proof (induction occs arbitrary: al)
  case Nil
  then show ?case by (simp add: expand_occurrences_def)
next
  case (Cons occ occs)
  show ?case
    using Cons [of "fold_occurrence al occ"]
    by (simp add: freq_of_fold_occurrence expand_occurrences_Cons count_list_replicate)
qed

lemma freq_of_construct_alphabet:
  "freq_of (construct_alphabet (store_contiguous_values B)) v = count_list B v"
  by (simp add: construct_alphabet_def freq_of_foldl_fold_occurrence
      store_contiguous_values_expand)

lemma freq_of_member:
  "distinct (map lvalue al) \<Longrightarrow> a \<in> set al \<Longrightarrow> freq_of al (lvalue a) = freq a"
proof (induction al)
  case Nil
  then show ?case by simp
next
  case (Cons b al)
  show ?case
  proof (cases "a = b")
    case True
    have "filter (\<lambda>c. lvalue c = lvalue b) al = []"
      using Cons.prems(1) by (auto simp: filter_empty_conv image_iff)
    then show ?thesis using True by (simp add: freq_of_def)
  next
    case False
    then have "a \<in> set al" using Cons.prems by simp
    moreover from this have "lvalue b \<noteq> lvalue a" using Cons.prems(1) by auto
    ultimately show ?thesis using Cons by (simp add: freq_of_def)
  qed
qed

lemma sorted_alphabet_props:
  "std_sort_post (construct_alphabet (store_contiguous_values B)) alphabet \<Longrightarrow>
   sorted_wrt (\<lambda>a b. freq b \<le> freq a) alphabet \<and>
   distinct (map lvalue alphabet) \<and>
   set (map lvalue alphabet) = set B \<and>
   (\<forall>a \<in> set alphabet. freq a = count_list B (lvalue a)) \<and>
   map lvalue (construct_alphabet (store_contiguous_values B)) = first_seen B"
proof -
  let ?al = "construct_alphabet (store_contiguous_values B)"
  assume "std_sort_post ?al alphabet"
  then have m: "mset alphabet = mset ?al"
    and s: "sorted_wrt (\<lambda>a b. \<not> freq b > freq a) alphabet"
    by (auto simp: std_sort_post_def)
  have s': "sorted_wrt (\<lambda>a b. freq b \<le> freq a) alphabet"
    using s by (simp add: not_less)
  from m have "mset (map lvalue alphabet) = mset (map lvalue ?al)" by simp
  then have mv: "mset (map lvalue alphabet) = mset (first_seen B)"
    by (simp add: lvalue_construct_alphabet)
  have d: "distinct (map lvalue alphabet)"
    using mset_eq_imp_distinct_iff [OF mv] by simp
  have v: "set (map lvalue alphabet) = set B"
    using mset_eq_setD [OF mv] by simp
  have dal: "distinct (map lvalue ?al)" by (simp add: lvalue_construct_alphabet)
  have f: "freq a = count_list B (lvalue a)" if "a \<in> set alphabet" for a
  proof -
    from that have "a \<in> set ?al" using mset_eq_setD [OF m] by simp
    from freq_of_member [OF dal this] show ?thesis
      by (simp add: freq_of_construct_alphabet)
  qed
  show ?thesis using s' d v f lvalue_construct_alphabet [of B] by blast
qed


section \<open>The codec driver\<close>

lemma BitsNeeded_0 [simp]: "BitsNeeded 0 = 0"
  by (simp add: BitsNeeded.simps)

section \<open>The bit stream writer\<close>

lemma bits_of_bytes_append [simp]:
  "bits_of_bytes (xs @ ys) = bits_of_bytes xs @ bits_of_bytes ys"
  by (simp add: bits_of_bytes_def)

lemma length_bits_of_byte [simp]: "length (bits_of_byte b) = 8"
  by (simp add: bits_of_byte_def)

lemma length_bits_of_bytes [simp]: "length (bits_of_bytes bs) = 8 * length bs"
  by (induction bs) (simp_all add: bits_of_bytes_def)

lemma take_bits_of_byte:
  "n \<le> 8 \<Longrightarrow> take n (bits_of_byte b) = map (bit b) [0..<n]"
  by (simp add: bits_of_byte_def take_map)

lemma take_bit_eq_self_iff_bits:
  "take_bit n (b :: byte_t) = b \<longleftrightarrow> (\<forall>i. bit b i \<longrightarrow> i < n)"
proof
  assume e: "take_bit n b = b"
  show "\<forall>i. bit b i \<longrightarrow> i < n"
  proof (intro allI impI)
    fix i assume "bit b i"
    then have "bit (take_bit n b) i" using e by simp
    then show "i < n" by (simp add: bit_take_bit_iff)
  qed
next
  assume "\<forall>i. bit b i \<longrightarrow> i < n"
  then show "take_bit n b = b"
    by (intro bit_eqI) (auto simp: bit_take_bit_iff)
qed

lemma put_bit_spec:
  fixes w :: writer and b :: bool
  assumes "writer_ok w"
  defines "w' \<equiv> check_bit (if b then write_bit w else w)"
  shows "writer_ok w'" and "writer_bits w' = writer_bits w @ [b]"
    and "written_bits w' = written_bits w + 1"
proof -
  let ?n = "written_bits_on_result_byte w"
  let ?byte = "if b then result_byte w OR push_bit ?n 1 else result_byte w"
  from assms(1) have n: "?n < 8" and z: "\<And>i. bit (result_byte w) i \<Longrightarrow> i < ?n"
    by (auto simp: writer_ok_def take_bit_eq_self_iff_bits)
  have bits: "bit ?byte i \<longleftrightarrow> bit (result_byte w) i \<or> (b \<and> i = ?n)" for i
    using n by (auto simp: bit_or_iff bit_exp_iff)
  have low: "map (bit ?byte) [0..<?n] = map (bit (result_byte w)) [0..<?n]"
    by (rule map_cong) (auto simp: bits)
  have at: "bit ?byte ?n = b" using z [of ?n] by (auto simp: bits)
  have tk: "take (Suc ?n) (bits_of_byte ?byte) = take ?n (bits_of_byte (result_byte w)) @ [b]"
    using n low at by (simp add: take_bits_of_byte)
  show "written_bits w' = written_bits w + 1"
    by (simp add: w'_def check_bit_def write_bit_def Let_def)
  show "writer_ok w'"
  proof (cases "Suc ?n = 8")
    case True
    then show ?thesis by (simp add: w'_def check_bit_def write_bit_def Let_def writer_ok_def)
  next
    case False
    have "\<And>i. bit ?byte i \<Longrightarrow> i < Suc ?n" using z by (auto simp: bits less_Suc_eq)
    then have "take_bit (Suc ?n) ?byte = ?byte"
      unfolding take_bit_eq_self_iff_bits by blast
    then show ?thesis using False n
      by (auto simp: w'_def check_bit_def write_bit_def Let_def writer_ok_def)
  qed
  show "writer_bits w' = writer_bits w @ [b]"
  proof (cases "Suc ?n = 8")
    case True
    then have "take (Suc ?n) (bits_of_byte ?byte) = bits_of_byte ?byte" by simp
    with tk have "bits_of_byte ?byte = take ?n (bits_of_byte (result_byte w)) @ [b]" by simp
    then show ?thesis using True
      by (auto simp: w'_def check_bit_def write_bit_def Let_def writer_bits_def bits_of_bytes_def)
  next
    case False
    then show ?thesis using tk
      by (auto simp: w'_def check_bit_def write_bit_def Let_def writer_bits_def)
  qed
qed

lemma put_bits_Nil [simp]: "put_bits [] w = w"
  by (simp add: put_bits_def)

lemma put_bits_Cons:
  "put_bits (b # bs) w = put_bits bs (check_bit (if b then write_bit w else w))"
  by (simp add: put_bits_def)

lemma put_bits_append: "put_bits (xs @ ys) w = put_bits ys (put_bits xs w)"
  by (simp add: put_bits_def)

lemma put_bits_spec:
  "writer_ok w \<Longrightarrow>
   writer_ok (put_bits bs w) \<and> writer_bits (put_bits bs w) = writer_bits w @ bs \<and>
   written_bits (put_bits bs w) = written_bits w + of_nat (length bs)"
proof (induction bs arbitrary: w)
  case Nil
  then show ?case by simp
next
  case (Cons b bs)
  let ?w = "check_bit (if b then write_bit w else w)"
  from put_bit_spec [OF Cons.prems, of b]
  have "writer_ok ?w" "writer_bits ?w = writer_bits w @ [b]" "written_bits ?w = written_bits w + 1"
    by auto
  with Cons.IH [of ?w] show ?case by (simp add: put_bits_Cons)
qed

lemma method1_put_bits:
  "method1 max_depth_bits p w =
     put_bits (map (bit (depth p)) [0..<max_depth_bits] @ map (bit (bit_path p)) [0..<depth p]) w"
  by (simp add: method1_def put_bits_def foldl_map)

lemma foldl_const_upt:
  "foldl (\<lambda>w (c :: nat). put_bits bs w) w [0..<k] = put_bits (concat (replicate k bs)) w"
proof (induction k)
  case 0
  then show ?case by simp
next
  case (Suc k)
  have "concat (replicate (Suc k) bs) = concat (replicate k bs) @ bs"
    by (metis concat.simps(2) concat_append replicate_Suc replicate_append_same append_Nil2 concat.simps(1))
  then show ?case using Suc by (simp add: put_bits_append)
qed

lemma encode_occurrence_put_bits:
  "encode_occurrence t m w occ =
     put_bits (concat (replicate (unat (count_occ occ)) (letter_bits t m (letter_value occ)))) w"
  by (simp add: encode_occurrence_def method1_put_bits letter_bits_def Let_def foldl_const_upt)

lemma path_bits_Nil [simp]: "path_bits t m [] = []"
  by (simp add: path_bits_def)

lemma path_bits_Cons: "path_bits t m (x # xs) = letter_bits t m x @ path_bits t m xs"
  by (simp add: path_bits_def)

lemma path_bits_append: "path_bits t m (xs @ ys) = path_bits t m xs @ path_bits t m ys"
  by (simp add: path_bits_def)

lemma path_bits_replicate: "path_bits t m (replicate k x) = concat (replicate k (letter_bits t m x))"
  by (induction k) (simp_all add: path_bits_Cons)

lemma foldl_encode_occurrence:
  "foldl (encode_occurrence t m) w occs = put_bits (path_bits t m (expand_occurrences occs)) w"
proof (induction occs arbitrary: w)
  case Nil
  then show ?case by (simp add: expand_occurrences_def)
next
  case (Cons occ occs)
  then show ?case
    by (simp add: encode_occurrence_put_bits expand_occurrences_Cons path_bits_append
        path_bits_replicate put_bits_append)
qed


lemma result_put_bits: "\<exists>ys. result (put_bits bs w) = result w @ ys"
proof (induction bs arbitrary: w)
  case Nil
  then show ?case by simp
next
  case (Cons b bs)
  let ?w = "check_bit (if b then write_bit w else w)"
  have "\<exists>ys. result ?w = result w @ ys"
    by (simp add: check_bit_def write_bit_def Let_def)
  then obtain ys where ys: "result ?w = result w @ ys" by blast
  from Cons [of ?w] obtain zs where "result (put_bits bs ?w) = result ?w @ zs" by blast
  with ys show ?case by (simp add: put_bits_Cons)
qed

lemma length_writer_bits:
  "writer_ok w \<Longrightarrow> length (writer_bits w) = 8 * length (result w) + written_bits_on_result_byte w"
  by (simp add: writer_bits_def writer_ok_def)

lemma flush_bits:
  assumes "writer_ok w"
  defines "flushed \<equiv> (if written_bits_on_result_byte w > 0 then result w @ [result_byte w] else result w)"
  shows "take (length (writer_bits w)) (bits_of_bytes flushed) = writer_bits w"
  using assms(1) unfolding flushed_def
  by (auto simp: writer_bits_def writer_ok_def bits_of_bytes_def)

lemma encode_eq:
  "encode std_sort values =
     (let w = put_bits (encoded_bits std_sort values)
                \<lparr>result = encode_header std_sort values, result_byte = 0,
                 written_bits_on_result_byte = 0, written_bits = 0\<rparr>
      in (if written_bits_on_result_byte w > 0 then result w @ [result_byte w] else result w)
         @ bytes_of_uint32 (written_bits w))"
  by (simp add: encode_def Let_def foldl_encode_occurrence store_contiguous_values_expand
      encoded_bits_def encode_tree_def encode_depth_bits_def encode_header_def encode_alphabet_def)

lemma encode_structure:
  fixes std_sort :: "('a::len) word Letter list \<Rightarrow> 'a word Letter list"
  defines "L \<equiv> \<lambda>values. length (encoded_bits std_sort values)"
  shows "\<exists>payload.
     encode std_sort values =
       encode_header std_sort values @ payload @ bytes_of_uint32 (of_nat (L values)) \<and>
     length payload = (L values + 7) div 8 \<and>
     take (L values) (bits_of_bytes payload) = encoded_bits std_sort values"
proof -
  let ?bits = "encoded_bits std_sort values"
  let ?h = "encode_header std_sort values"
  let ?init = "\<lparr>result = ?h, result_byte = 0, written_bits_on_result_byte = 0, written_bits = 0\<rparr>"
  let ?w = "put_bits ?bits ?init"
  let ?n = "written_bits_on_result_byte ?w"
  let ?flushed = "if ?n > 0 then result ?w @ [result_byte ?w] else result ?w"
  have ok0: "writer_ok ?init" by (simp add: writer_ok_def)
  have wb0: "writer_bits ?init = bits_of_bytes ?h" by (simp add: writer_bits_def)
  have spec: "writer_ok ?w \<and> writer_bits ?w = writer_bits ?init @ ?bits \<and>
      written_bits ?w = written_bits ?init + of_nat (length ?bits)"
    by (rule put_bits_spec [OF ok0])
  from spec have ok: "writer_ok ?w" by blast
  from spec have wb: "writer_bits ?w = bits_of_bytes ?h @ ?bits" by (simp only: wb0)
  from spec have cnt: "written_bits ?w = of_nat (L values)" by (simp add: L_def)
  from result_put_bits [of ?bits ?init] obtain ys where ys: "result ?w = ?h @ ys" by auto
  define payload where "payload = (if ?n > 0 then ys @ [result_byte ?w] else ys)"
  have fl: "?flushed = ?h @ payload" by (simp add: payload_def ys)
  have len: "8 * length (result ?w) + ?n = 8 * length ?h + L values"
    using length_writer_bits [OF ok] wb by (simp add: L_def)
  have n8: "?n < 8" using ok by (simp add: writer_ok_def)
  have lp: "length payload = (L values + 7) div 8"
    using len n8 by (auto simp: payload_def ys)
  have "take (length (writer_bits ?w)) (bits_of_bytes ?flushed) = writer_bits ?w"
    using flush_bits [OF ok] by simp
  then have "take (8 * length ?h + L values) (bits_of_bytes ?h @ bits_of_bytes payload) =
      bits_of_bytes ?h @ ?bits"
    by (simp only: fl wb bits_of_bytes_append length_append length_bits_of_bytes L_def)
  then have tk: "take (L values) (bits_of_bytes payload) = ?bits" by simp
  have "encode std_sort values = ?flushed @ bytes_of_uint32 (written_bits ?w)"
    by (simp add: encode_eq Let_def)
  then have "encode std_sort values = ?h @ payload @ bytes_of_uint32 (of_nat (L values))"
    by (simp only: fl cnt append_assoc)
  with lp tk show ?thesis by blast
qed

section \<open>The bit stream reader\<close>

lemma bits_of_bytes_nth:
  "g < 8 * length data \<Longrightarrow> bits_of_bytes data ! g = bit (data ! (g div 8)) (g mod 8)"
proof (induction data arbitrary: g)
  case Nil
  then show ?case by simp
next
  case (Cons b bs)
  show ?case
  proof (cases "g < 8")
    case True
    then show ?thesis by (simp add: bits_of_bytes_def nth_append bits_of_byte_def)
  next
    case False
    then obtain h where g: "g = 8 + h" using le_Suc_ex [of 8 g] by auto
    have "bits_of_bytes (b # bs) ! g = bits_of_bytes bs ! h"
      by (simp add: g bits_of_bytes_def nth_append)
    also have "\<dots> = bit (bs ! (h div 8)) (h mod 8)"
      using Cons.prems g by (intro Cons.IH) simp
    finally show ?thesis
    proof -
      have "(8 + h) div 8 = Suc (h div 8)" by (simp add: div_add_self1)
      moreover assume "bits_of_bytes (b # bs) ! g = bit (bs ! (h div 8)) (h mod 8)"
      ultimately show ?thesis by (simp add: g)
    qed
  qed
qed

lemma read_bit_spec:
  assumes "reader_at r g k" and "g < 8 * length data"
  shows "\<exists>r'. read_bit data r = Inr (of_bool (bits_of_bytes data ! g), r') \<and>
              reader_at r' (Suc g) (Suc k)"
proof -
  from assms have rb: "read_bytes r = g div 8" "read_bits_on_result_byte r = g mod 8"
    "bits_read r = k" by (auto simp: reader_at_def)
  have inr: "g div 8 < length data" using assms(2) by (simp add: div_less_iff_less_mult)
  have v: "(data ! (g div 8) AND push_bit (g mod 8) 1 \<noteq> 0) = bits_of_bytes data ! g"
    using bits_of_bytes_nth [OF assms(2)] by (simp add: bit_iff_and_push_bit_not_eq_0)
  show ?thesis
  proof (cases "g mod 8 = 7")
    case True
    then have S: "Suc g div 8 = Suc (g div 8)" "Suc g mod 8 = 0"
      by (simp_all add: div_Suc mod_Suc)
    have "read_bit data r = Inr (of_bool (bits_of_bytes data ! g),
        r\<lparr>read_bits_on_result_byte := 0, bits_read := Suc k, read_bytes := Suc (g div 8)\<rparr>)"
      using rb inr v True by (simp add: read_bit_def Let_def)
    moreover have "reader_at
        (r\<lparr>read_bits_on_result_byte := 0, bits_read := Suc k, read_bytes := Suc (g div 8)\<rparr>)
        (Suc g) (Suc k)"
      by (simp add: reader_at_def S)
    ultimately show ?thesis by blast
  next
    case False
    then have S: "Suc g div 8 = g div 8" "Suc g mod 8 = Suc (g mod 8)"
      by (simp_all add: div_Suc mod_Suc)
    have "g mod 8 < 8" by simp
    with False have ne: "Suc (g mod 8) \<noteq> 8" by simp
    have "read_bit data r = Inr (of_bool (bits_of_bytes data ! g),
        r\<lparr>read_bits_on_result_byte := Suc (g mod 8), bits_read := Suc k\<rparr>)"
      using rb inr v ne by (simp add: read_bit_def Let_def)
    moreover have "reader_at
        (r\<lparr>read_bits_on_result_byte := Suc (g mod 8), bits_read := Suc k\<rparr>) (Suc g) (Suc k)"
      using rb by (simp add: reader_at_def S)
    ultimately show ?thesis by blast
  qed
qed

lemma read_depth_spec:
  assumes "j \<le> m" and "reader_at r (g + j) (k + j)" and "g + m \<le> 8 * length data"
    and "\<forall>i. j \<le> i \<and> i < m \<longrightarrow> bits_of_bytes data ! (g + i) = bit dv i"
    and "depth p = take_bit j dv"
  shows "\<exists>r'. read_depth data m j p r = Inr (p\<lparr>depth := take_bit m dv\<rparr>, r') \<and>
              reader_at r' (g + m) (k + m)"
  using assms
proof (induction "m - j" arbitrary: j p r)
  case 0
  then have "j = m" by simp
  with 0 show ?case by (simp add: read_depth.simps [of data m m])
next
  case (Suc n)
  then have lt: "j < m" by simp
  from Suc.prems(3) lt have "g + j < 8 * length data" by simp
  from read_bit_spec [OF Suc.prems(2) this] obtain r1 where
    r1: "read_bit data r = Inr (of_bool (bits_of_bytes data ! (g + j)), r1)"
        "reader_at r1 (g + Suc j) (k + Suc j)" by auto
  have b: "bits_of_bytes data ! (g + j) = bit dv j" using Suc.prems(4) lt by simp
  let ?p = "p\<lparr>depth := depth p OR push_bit j (of_bool (bit dv j))\<rparr>"
  have d: "depth ?p = take_bit (Suc j) dv"
  proof (rule bit_eqI)
    fix n
    show "bit (depth ?p) n = bit (take_bit (Suc j) dv) n"
      using Suc.prems(5)
      by (auto simp: bit_or_iff bit_take_bit_iff bit_exp_iff less_Suc_eq)
  qed
  have "\<exists>r'. read_depth data m (Suc j) ?p r1 = Inr (?p\<lparr>depth := take_bit m dv\<rparr>, r') \<and>
              reader_at r' (g + m) (k + m)"
    using Suc.hyps(2) lt Suc.prems(3,4) r1(2) d by (intro Suc.hyps(1)) auto
  then show ?case using lt r1(1) b by (simp add: read_depth.simps [of data m j])
qed

lemma read_bit_path_spec:
  assumes "j \<le> depth p" and "reader_at r (g + j) (k + j)" and "g + depth p \<le> 8 * length data"
  shows "\<exists>p' r'. read_bit_path data j p r = Inr (p', r') \<and> depth p' = depth p \<and>
           (\<forall>i. bit (bit_path p') i =
              (if j \<le> i \<and> i < depth p then bits_of_bytes data ! (g + i) else bit (bit_path p) i)) \<and>
           reader_at r' (g + depth p) (k + depth p)"
  using assms
proof (induction "depth p - j" arbitrary: j p r)
  case 0
  then have "j = depth p" by simp
  with 0 show ?case by (auto simp: read_bit_path.simps [of data "depth p"])
next
  case (Suc n)
  then have lt: "j < depth p" by simp
  from Suc.prems(3) lt have "g + j < 8 * length data" by simp
  from read_bit_spec [OF Suc.prems(2) this] obtain r1 where
    r1: "read_bit data r = Inr (of_bool (bits_of_bytes data ! (g + j)), r1)"
        "reader_at r1 (g + Suc j) (k + Suc j)" by auto
  let ?b = "bits_of_bytes data ! (g + j)"
  let ?p = "p\<lparr>bit_path := (if ?b then set_bit j (bit_path p) else unset_bit j (bit_path p))\<rparr>"
  have dp: "depth ?p = depth p" by simp
  have "\<exists>p' r'. read_bit_path data (Suc j) ?p r1 = Inr (p', r') \<and> depth p' = depth ?p \<and>
           (\<forall>i. bit (bit_path p') i =
              (if Suc j \<le> i \<and> i < depth ?p then bits_of_bytes data ! (g + i) else bit (bit_path ?p) i)) \<and>
           reader_at r' (g + depth ?p) (k + depth ?p)"
    using Suc.hyps(2) lt Suc.prems(3) r1(2) by (intro Suc.hyps(1)) auto
  then obtain p' r' where
    res: "read_bit_path data (Suc j) ?p r1 = Inr (p', r')" "depth p' = depth p"
      "\<forall>i. bit (bit_path p') i =
              (if Suc j \<le> i \<and> i < depth p then bits_of_bytes data ! (g + i) else bit (bit_path ?p) i)"
      "reader_at r' (g + depth p) (k + depth p)"
    by auto
  have "read_bit_path data j p r = Inr (p', r')"
    using lt r1(1) res(1) by (simp add: read_bit_path.simps [of data j] cong: if_cong)
  moreover have "\<forall>i. bit (bit_path p') i =
              (if j \<le> i \<and> i < depth p then bits_of_bytes data ! (g + i) else bit (bit_path p) i)"
  proof
    fix i
    consider "i = j" | "i \<noteq> j" by blast
    then show "bit (bit_path p') i =
              (if j \<le> i \<and> i < depth p then bits_of_bytes data ! (g + i) else bit (bit_path p) i)"
    proof cases
      case 1
      then show ?thesis using res(3) lt by (simp add: bit_set_bit_iff bit_unset_bit_iff)
    next
      case 2
      then have "(Suc j \<le> i) = (j \<le> i)" by auto
      then show ?thesis using res(3) 2 by (simp add: bit_set_bit_iff bit_unset_bit_iff)
    qed
  qed
  ultimately show ?case using res(2,4) by blast
qed

section \<open>Decoding a written bit stream\<close>

lemma BitsNeeded_bound: "n < 2 ^ BitsNeeded n"
proof (induction n rule: BitsNeeded.induct)
  case (1 n)
  show ?case
  proof (cases "n = 0")
    case True
    then show ?thesis by simp
  next
    case False
    from 1 [OF False] have "n div 2 < 2 ^ BitsNeeded (n div 2)" .
    then have "n < 2 * 2 ^ BitsNeeded (n div 2)" by linarith
    then show ?thesis using False by (simp add: BitsNeeded.simps [of n])
  qed
qed

lemma path_info_node_depth:
  "path_info_node p n d x = (True, p') \<Longrightarrow> depth p' \<le> d + height n"
proof (induction p n d x arbitrary: p' rule: path_info_node.induct)
  case (1 pathInfo d x)
  then show ?case by simp
next
  case (2 pathInfo v l r d x)
  show ?case
  proof (cases "v = uint x")
    case True
    with 2(3) show ?thesis by auto
  next
    case False
    obtain fl p1 where L: "path_info_node pathInfo l (Suc d) x = (fl, p1)"
      by (cases "path_info_node pathInfo l (Suc d) x")
    show ?thesis
    proof (cases fl)
      case True
      with False L 2(3) have p': "p' = p1\<lparr>bit_path := unset_bit d (bit_path p1)\<rparr>" by simp
      from True L have "l \<noteq> Nullptr" by auto
      moreover from 2(1) [OF False] L True have "depth p1 \<le> Suc d + height l" by simp
      ultimately show ?thesis using p' by simp
    next
      case fl: False
      obtain fr p2 where R: "path_info_node (p1\<lparr>bit_path := set_bit d (bit_path p1)\<rparr>) r (Suc d) x = (fr, p2)"
        by (cases "path_info_node (p1\<lparr>bit_path := set_bit d (bit_path p1)\<rparr>) r (Suc d) x")
      with False L fl 2(3) have fr: fr and p': "p' = p2\<lparr>bit_path := set_bit d (bit_path p2)\<rparr>"
        by (auto split: if_splits)
      from fr R have "r \<noteq> Nullptr" by auto
      moreover from 2(2) [OF False L [symmetric]] fl R fr have "depth p2 \<le> Suc d + height r" by simp
      ultimately show ?thesis using p' by simp
    qed
  qed
qed

lemma decode_letter_spec:
  fixes x :: byte_t
  assumes "uint x \<in> node_values tree" and "height tree < 2 ^ m"
    and "reader_at r g k"
    and "g + length (letter_bits tree m x) \<le> 8 * length data"
    and "\<forall>i < length (letter_bits tree m x). bits_of_bytes data ! (g + i) = letter_bits tree m x ! i"
  shows "\<exists>r'. decode_letter data m tree r = Inr (x, r') \<and>
           reader_at r' (g + length (letter_bits tree m x)) (k + length (letter_bits tree m x))"
proof -
  from path_info_node_finds [OF assms(1), of PathInfo_new 0]
  obtain px where px: "path_info_node PathInfo_new tree 0 x = (True, px)"
    by (cases "path_info_node PathInfo_new tree 0 x") auto
  let ?A = "map (bit (depth px)) [0..<m]"
  let ?B = "map (bit (bit_path px)) [0..<depth px]"
  have lb: "letter_bits tree m x = ?A @ ?B"
    using px by (simp add: letter_bits_def path_info_def)
  have len: "length (letter_bits tree m x) = m + depth px" by (simp add: lb)
  have dpx: "depth px < 2 ^ m"
    using path_info_node_depth [OF px] assms(2) by simp
  have A: "\<forall>i. 0 \<le> i \<and> i < m \<longrightarrow> bits_of_bytes data ! (g + i) = bit (depth px) i"
    using assms(5) by (simp add: lb nth_append)
  have B: "\<forall>i. i < depth px \<longrightarrow> bits_of_bytes data ! (g + m + i) = bit (bit_path px) i"
  proof (intro allI impI)
    fix i assume i: "i < depth px"
    then have "bits_of_bytes data ! (g + (m + i)) = (?A @ ?B) ! (m + i)"
      using assms(5) by (simp add: lb)
    then show "bits_of_bytes data ! (g + m + i) = bit (bit_path px) i"
      using i by (simp add: nth_append add.assoc)
  qed
  have "\<exists>r'. read_depth data m 0 PathInfo_new r = Inr (PathInfo_new\<lparr>depth := take_bit m (depth px)\<rparr>, r') \<and>
              reader_at r' (g + m) (k + m)"
    using assms(3,4) A by (intro read_depth_spec) (simp_all add: len PathInfo_new_def)
  then obtain r1 where r1: "read_depth data m 0 PathInfo_new r = Inr (PathInfo_new\<lparr>depth := depth px\<rparr>, r1)"
      "reader_at r1 (g + m) (k + m)"
    using dpx by (auto simp: take_bit_nat_eq_self)
  let ?p1 = "PathInfo_new\<lparr>depth := depth px\<rparr>"
  have "\<exists>p' r'. read_bit_path data 0 ?p1 r1 = Inr (p', r') \<and> depth p' = depth ?p1 \<and>
           (\<forall>i. bit (bit_path p') i =
              (if 0 \<le> i \<and> i < depth ?p1 then bits_of_bytes data ! (g + m + i) else bit (bit_path ?p1) i)) \<and>
           reader_at r' (g + m + depth ?p1) (k + m + depth ?p1)"
    using r1(2) assms(4) by (intro read_bit_path_spec) (simp_all add: len)
  then obtain p2 r2 where r2: "read_bit_path data 0 ?p1 r1 = Inr (p2, r2)" "depth p2 = depth px"
      "\<forall>i. i < depth px \<longrightarrow> bit (bit_path p2) i = bits_of_bytes data ! (g + m + i)"
      "reader_at r2 (g + m + depth px) (k + m + depth px)"
    by auto
  have "depth p2 = depth px \<and> (\<forall>i. 0 \<le> i \<and> i < depth px \<longrightarrow> bit (bit_path p2) i = bit (bit_path px) i)"
    using r2(2,3) B by simp
  with path_info_node_found [OF px] obtain l' r' where
    "find_value_loop p2 0 tree = Inr (Node (uint x) l' r')" by blast
  then have fv: "find_value tree p2 = Inr x" by (simp add: find_value_def)
  have "decode_letter data m tree r = Inr (x, r2)"
    using r1(1) r2(1) fv by (simp add: decode_letter_def)
  then show ?thesis using r2(4) by (auto simp: len add.assoc)
qed

lemma length_letter_bits: "m \<le> length (letter_bits tree m x)"
  by (simp add: letter_bits_def Let_def)

lemma decode_loop_spec:
  fixes xs :: "byte_t list"
  assumes "\<forall>x \<in> set xs. uint x \<in> node_values tree" and "height tree < 2 ^ m"
    and "xs \<noteq> [] \<longrightarrow> 0 < m"
    and "reader_at r g k"
    and "unat counter = k + length (path_bits tree m xs)"
    and "g + length (path_bits tree m xs) \<le> 8 * length data"
    and "\<forall>i < length (path_bits tree m xs). bits_of_bytes data ! (g + i) = path_bits tree m xs ! i"
  shows "\<exists>r'. decode_loop data m tree counter r occs =
             Some (Inr (occs @ map (\<lambda>x. \<lparr>letter_value = x, count_occ = 1\<rparr>) xs, r')) \<and>
           bits_read r' = unat counter"
  using assms
proof (induction xs arbitrary: r g k occs)
  case Nil
  then have "bits_read r = unat counter" by (simp add: reader_at_def)
  then show ?case by (subst decode_loop.simps) simp
next
  case (Cons x xs)
  let ?lb = "letter_bits tree m x"
  let ?n = "length ?lb"
  have pb: "path_bits tree m (x # xs) = ?lb @ path_bits tree m xs" by (rule path_bits_Cons)
  have m: "0 < m" using Cons.prems(3) by simp
  have n: "0 < ?n" using length_letter_bits [of m tree x] m by linarith
  have lt: "bits_read r < unat counter"
    using Cons.prems(4,5) n by (simp add: reader_at_def pb)
  have bits: "\<forall>i < ?n. bits_of_bytes data ! (g + i) = ?lb ! i"
    using Cons.prems(7) by (auto simp: pb nth_append)
  have "\<exists>r'. decode_letter data m tree r = Inr (x, r') \<and> reader_at r' (g + ?n) (k + ?n)"
    using Cons.prems(1,2,4,6) bits by (intro decode_letter_spec) (simp_all add: pb)
  then obtain r1 where r1: "decode_letter data m tree r = Inr (x, r1)" "reader_at r1 (g + ?n) (k + ?n)"
    by blast
  have rest: "\<forall>i < length (path_bits tree m xs). bits_of_bytes data ! (g + ?n + i) = path_bits tree m xs ! i"
  proof (intro allI impI)
    fix i assume "i < length (path_bits tree m xs)"
    then have "bits_of_bytes data ! (g + (?n + i)) = (?lb @ path_bits tree m xs) ! (?n + i)"
      using Cons.prems(7) by (simp add: pb)
    then show "bits_of_bytes data ! (g + ?n + i) = path_bits tree m xs ! i"
      by (simp add: add.assoc)
  qed
  have "\<exists>r'. decode_loop data m tree counter r1 (occs @ [\<lparr>letter_value = x, count_occ = 1\<rparr>]) =
             Some (Inr ((occs @ [\<lparr>letter_value = x, count_occ = 1\<rparr>]) @
                        map (\<lambda>x. \<lparr>letter_value = x, count_occ = 1\<rparr>) xs, r')) \<and>
           bits_read r' = unat counter"
    using Cons.prems(1,2,5,6) m r1(2) rest
    by (intro Cons.IH [of r1 "g + ?n" "k + ?n"]) (simp_all add: pb)
  then show ?case using lt r1(1) by (subst decode_loop.simps) simp
qed

section \<open>Encoding, then decoding\<close>

lemma sort_by_highest_frequency_contract: "std_sort_contract sort_by_highest_frequency"
proof -
  have "sorted_wrt (\<lambda>a b. \<not> freq b > freq a) (sort_key (\<lambda>a. - int (freq a)) xs)"
    for xs :: "'a Letter list"
    using sorted_sort_key [of "\<lambda>a. - int (freq a)" xs]
    by (simp add: sorted_map not_less)
  then show ?thesis
    by (simp add: std_sort_contract_def std_sort_post_def sort_by_highest_frequency_def)
qed

lemma encode_alphabet_props:
  assumes "std_sort_contract std_sort"
  shows "distinct (map lvalue (encode_alphabet std_sort B))"
    and "set (map lvalue (encode_alphabet std_sort B)) = set B"
    and "length (encode_alphabet std_sort B) = length (first_seen B)"
proof -
  let ?al = "construct_alphabet (store_contiguous_values B)"
  have p: "std_sort_post ?al (encode_alphabet std_sort B)"
    using assms by (simp add: std_sort_contract_def encode_alphabet_def)
  from sorted_alphabet_props [OF p]
  show "distinct (map lvalue (encode_alphabet std_sort B))"
    and "set (map lvalue (encode_alphabet std_sort B)) = set B"
    by blast+
  from p have "mset (encode_alphabet std_sort B) = mset ?al" by (simp add: std_sort_post_def)
  then have "length (encode_alphabet std_sort B) = length ?al" by (rule mset_eq_length)
  also have "\<dots> = length (map lvalue ?al)" by simp
  also have "\<dots> = length (first_seen B)" by (simp only: lvalue_construct_alphabet)
  finally show "length (encode_alphabet std_sort B) = length (first_seen B)" .
qed

lemma distinct_bytes_length: "distinct (xs :: byte_t list) \<Longrightarrow> length xs \<le> 256"
proof -
  assume "distinct xs"
  then have "length xs = card (set xs)" by (simp add: distinct_card)
  also have "\<dots> \<le> card (UNIV :: byte_t set)" by (intro card_mono) simp_all
  also have "\<dots> = 256" by (simp add: card_word)
  finally show ?thesis .
qed

lemma nvalue_insert_node: "nvalue (insert_node (Node v l r) x) = v"
  by simp

lemma total_nodes_insert_node:
  "n \<noteq> Nullptr \<Longrightarrow> total_nodes (insert_node n x) = Suc (total_nodes n)"
  by (induction n x rule: insert_node.induct) auto

lemma build_tree_total_nodes:
  "xs \<noteq> [] \<Longrightarrow> nvalue (build_tree xs) \<noteq> INVALID \<and> total_nodes (build_tree xs) = length xs"
proof (induction xs rule: rev_induct)
  case Nil
  then show ?case by simp
next
  case (snoc x xs)
  show ?case
  proof (cases "xs = []")
    case True
    then show ?thesis by (simp add: build_tree_def BinaryTree_def)
  next
    case False
    obtain v l r where t: "build_tree xs = Node v l r"
      using build_tree_not_null [of xs] by (cases "build_tree xs") auto
    from snoc.IH [OF False] t have "v \<noteq> INVALID" "total_nodes (Node v l r) = length xs" by auto
    then show ?thesis
      using total_nodes_insert_node [of "Node v l r" x]
      by (simp add: build_tree_snoc t del: insert_node.simps total_nodes.simps)
        (simp add: nvalue_insert_node)
  qed
qed

lemma height_le_count_nodes: "n \<noteq> Nullptr \<Longrightarrow> height n \<le> count_nodes n"
  by (induction n) auto

lemma height_pos: "n \<noteq> Nullptr \<Longrightarrow> 0 < count_nodes n \<Longrightarrow> 0 < height n"
  by (cases n) (auto split: if_splits)

lemma BitsNeeded_le: "BitsNeeded n \<le> n"
proof (induction n rule: BitsNeeded.induct)
  case (1 n)
  show ?case
  proof (cases "n = 0")
    case True
    then show ?thesis by simp
  next
    case False
    from 1 [OF False] have "BitsNeeded (n div 2) \<le> n div 2" .
    moreover have "Suc (n div 2) \<le> n" using False by simp
    ultimately show ?thesis using False by (simp add: BitsNeeded.simps [of n])
  qed
qed

lemma BitsNeeded_pos: "0 < n \<Longrightarrow> 0 < BitsNeeded n"
  by (simp add: BitsNeeded.simps [of n])

lemma uint32_at_append:
  "uint32_at (pre @ bytes_of_uint32 c) (length pre) = c"
proof -
  have b: "bytes_of_uint32 c = [ucast c, ucast (drop_bit 8 c), ucast (drop_bit 16 c), ucast (drop_bit 24 c)]"
    by (simp add: bytes_of_uint32_def upt_rec)
  show ?thesis
    unfolding uint32_at_def b
  proof (rule bit_eqI)
    fix n
    assume "possible_bit TYPE(32 word) n"
    consider "n < 8" | "8 \<le> n" "n < 16" | "16 \<le> n" "n < 24" | "24 \<le> n"
      by linarith
    then show "bit (ucast ((pre @ [ucast c, ucast (drop_bit 8 c), ucast (drop_bit 16 c),
                 ucast (drop_bit 24 c) :: byte_t]) ! length pre) OR
             push_bit 8 (ucast ((pre @ [ucast c, ucast (drop_bit 8 c), ucast (drop_bit 16 c),
                 ucast (drop_bit 24 c)]) ! (length pre + 1))) OR
             push_bit 16 (ucast ((pre @ [ucast c, ucast (drop_bit 8 c), ucast (drop_bit 16 c),
                 ucast (drop_bit 24 c)]) ! (length pre + 2))) OR
             push_bit 24 (ucast ((pre @ [ucast c, ucast (drop_bit 8 c), ucast (drop_bit 16 c),
                 ucast (drop_bit 24 c)]) ! (length pre + 3))) :: 32 word) n = bit c n"
      by cases
        (auto simp: nth_append bit_or_iff bit_push_bit_iff bit_ucast_iff bit_drop_bit_eq
          dest: bit_imp_le_length)
  qed
qed


lemma decode_run_shape:
  assumes d: "data = [of_nat m, nb] @ als @ payload @ bytes_of_uint32 c"
    and m: "m < 256" and n: "unat nb + 1 = length als"
  shows "decode_run data =
     decode_loop data m (build_tree als) c
       \<lparr>read_bytes = 2 + length als, read_bits_on_result_byte = 0, bits_read = 0\<rparr> []"
proof -
  have len: "length data = 2 + length als + length payload + 4"
    by (simp add: d bytes_of_uint32_def)
  have d0: "unat (data ! 0) = m" using m by (simp add: d unat_of_nat)
  have d1: "unat (data ! 1) + 1 = length als" using n by (simp add: d)
  have "data = (([of_nat m, nb] @ als) @ payload) @ bytes_of_uint32 c" by (simp add: d)
  then have "uint32_at data (length (([of_nat m, nb] @ als) @ payload)) = c"
    by (simp only: uint32_at_append)
  then have cnt: "uint32_at data (length data - 4) = c" by (simp add: len)
  have "map (\<lambda>i. data ! (2 + i)) [0..<length als] = map (\<lambda>i. als ! i) [0..<length als]"
    by (rule map_cong) (simp_all add: d nth_append)
  then have al: "map (\<lambda>i. data ! (2 + i)) [0..<length als] = als" by (simp add: map_nth)
  have "map lvalue (map (\<lambda>alphabet_index. \<lparr>lvalue = data ! (2 + alphabet_index), freq = 0\<rparr>)
            [0..<length als]) = map (\<lambda>i. data ! (2 + i)) [0..<length als]"
    by (simp add: comp_def)
  then have tr: "map lvalue (map (\<lambda>alphabet_index. \<lparr>lvalue = data ! (2 + alphabet_index), freq = 0\<rparr>)
            [0..<length als]) = als"
    by (simp only: al)
  have "\<not> length data < 4" "\<not> length data < 2 + length als" by (simp_all add: len)
  then show ?thesis
    unfolding decode_run_def Let_def d0 d1 [simplified] cnt
    using tr d1 by simp
qed


lemma encode_tree_values:
  assumes "std_sort_contract std_sort" and "x \<in> set B"
  shows "uint x \<in> node_values (encode_tree std_sort B)"
proof -
  have "node_values (encode_tree std_sort B) \<union> {INVALID} = uint ` set B \<union> {INVALID}"
    using node_values_build_tree [of "map lvalue (encode_alphabet std_sort B)"]
      encode_alphabet_props(2) [OF assms(1), of B]
    by (simp only: encode_tree_def)
  then show ?thesis using assms(2) uint_not_INVALID [of x] by blast
qed

lemma encode_alphabet_length:
  assumes "std_sort_contract std_sort" and "B \<noteq> []"
  shows "1 \<le> length (encode_alphabet std_sort (B :: byte_t list))"
    and "length (encode_alphabet std_sort B) \<le> 256"
proof -
  have "first_seen B \<noteq> []" using assms(2) by (cases B) auto
  then show "1 \<le> length (encode_alphabet std_sort B)"
    using encode_alphabet_props(3) [OF assms(1), of B] by (cases "first_seen B") auto
  show "length (encode_alphabet std_sort B) \<le> 256"
    using distinct_bytes_length [OF encode_alphabet_props(1) [OF assms(1), of B]] by simp
qed

lemma encode_depth_bits_le:
  assumes "std_sort_contract std_sort" and "B \<noteq> []"
  shows "encode_depth_bits std_sort B < length (encode_alphabet std_sort B)"
proof -
  let ?vs = "map lvalue (encode_alphabet std_sort B)"
  have ne: "?vs \<noteq> []"
  proof -
    have "set ?vs = set B" by (rule encode_alphabet_props(2) [OF assms(1)])
    then show ?thesis using assms(2) by (metis set_empty)
  qed
  have "height (build_tree ?vs) \<le> count_nodes (build_tree ?vs)"
    by (rule height_le_count_nodes) simp
  moreover have "total_nodes (build_tree ?vs) = count_nodes (build_tree ?vs) + 1"
    by (rule count_nodes_total) simp
  moreover have "total_nodes (build_tree ?vs) = length ?vs"
    using build_tree_total_nodes [OF ne] by simp
  ultimately have "height (build_tree ?vs) < length ?vs" by simp
  then show ?thesis
    using BitsNeeded_le [of "height (build_tree ?vs)"]
    by (simp add: encode_depth_bits_def encode_tree_def)
qed

lemma alphabet_size_byte:
  assumes "1 \<le> n" and "n \<le> 256"
  shows "unat (ucast ((of_nat n :: 64 word) - 1) :: byte_t) + 1 = n"
proof -
  obtain k where k: "n = Suc k" using assms(1) by (cases n) auto
  have "(of_nat n :: 64 word) - 1 = of_nat k" by (simp add: k)
  moreover have "(ucast (of_nat k :: 64 word) :: byte_t) = of_nat k"
    by (rule bit_word_eqI) (auto simp: bit_ucast_iff bit_of_nat_iff)
  moreover have "unat (of_nat k :: byte_t) = k" using assms(2) k by (simp add: unat_of_nat)
  ultimately show ?thesis using k by simp
qed

lemma decode_run_encode:
  fixes B :: "byte_t list"
  assumes c: "std_sort_contract std_sort" and ne: "B \<noteq> []" and sp: "B = xs @ ys"
    and m: "xs \<noteq> [] \<longrightarrow> 0 < encode_depth_bits std_sort B"
    and cnt: "unat (of_nat (length (encoded_bits std_sort B)) :: 32 word) =
        length (path_bits (encode_tree std_sort B) (encode_depth_bits std_sort B) xs)"
  shows "\<exists>r. decode_run (encode std_sort B) =
            Some (Inr (map (\<lambda>x. \<lparr>letter_value = x, count_occ = 1\<rparr>) xs, r)) \<and>
          bits_read r = length (path_bits (encode_tree std_sort B) (encode_depth_bits std_sort B) xs)"
proof -
  let ?al = "encode_alphabet std_sort B"
  let ?tree = "encode_tree std_sort B"
  let ?m = "encode_depth_bits std_sort B"
  let ?L = "length (encoded_bits std_sort B)"
  let ?n = "length ?al"
  let ?nb = "ucast ((of_nat ?n :: 64 word) - 1) :: byte_t"
  let ?als = "map lvalue ?al"
  define data where "data = encode std_sort B"
  from encode_structure [of std_sort B] obtain payload where
    enc: "encode std_sort B = encode_header std_sort B @ payload @ bytes_of_uint32 (of_nat ?L)"
    and lp: "length payload = (?L + 7) div 8"
    and tk: "take ?L (bits_of_bytes payload) = encoded_bits std_sort B"
    by blast
  have hd: "encode_header std_sort B = [of_nat ?m, ?nb] @ ?als"
    by (simp add: encode_header_def)
  have d: "data = [of_nat ?m, ?nb] @ ?als @ payload @ bytes_of_uint32 (of_nat ?L)"
    by (simp add: data_def enc hd)
  have n1: "1 \<le> ?n" and n256: "?n \<le> 256" using encode_alphabet_length [OF c ne] by auto
  have m256: "?m < 256" using encode_depth_bits_le [OF c ne] n256 by simp
  have nb: "unat ?nb + 1 = length ?als" using alphabet_size_byte [OF n1 n256] by simp
  let ?r0 = "\<lparr>read_bytes = 2 + length ?als, read_bits_on_result_byte = 0, bits_read = 0\<rparr>"
  have run: "decode_run data = decode_loop data ?m (build_tree ?als) (of_nat ?L) ?r0 []"
    by (rule decode_run_shape [OF d m256 nb])
  let ?g = "8 * (2 + ?n)"
  let ?pb = "path_bits ?tree ?m xs"
  have pbs: "encoded_bits std_sort B = ?pb @ path_bits ?tree ?m ys"
    by (simp add: encoded_bits_def sp path_bits_append)
  then have lpb: "length ?pb \<le> ?L" by simp
  have L8: "?L \<le> 8 * length payload" using lp by simp
  have vals: "\<forall>x \<in> set xs. uint x \<in> node_values ?tree"
    using encode_tree_values [OF c, of _ B] sp by simp
  have h: "height ?tree < 2 ^ ?m" by (simp add: encode_depth_bits_def BitsNeeded_bound)
  have at: "reader_at ?r0 ?g 0" by (simp add: reader_at_def)
  have cnt': "unat (of_nat ?L :: 32 word) = 0 + length ?pb" using cnt by simp
  have len: "length data = 2 + ?n + length payload + 4"
    by (simp add: d bytes_of_uint32_def)
  have rng: "?g + length ?pb \<le> 8 * length data" using lpb L8 len by simp
  have bits: "\<forall>i < length ?pb. bits_of_bytes data ! (?g + i) = ?pb ! i"
  proof (intro allI impI)
    fix i assume i: "i < length ?pb"
    then have iL: "i < ?L" using lpb by simp
    have "bits_of_bytes data =
        bits_of_bytes ([of_nat ?m, ?nb] @ ?als) @ bits_of_bytes payload @
        bits_of_bytes (bytes_of_uint32 (of_nat ?L))"
      by (simp only: d bits_of_bytes_append append_assoc)
    moreover have "length (bits_of_bytes ([of_nat ?m, ?nb] @ ?als)) = ?g" by simp
    ultimately have "bits_of_bytes data ! (?g + i) =
        (bits_of_bytes payload @ bits_of_bytes (bytes_of_uint32 (of_nat ?L))) ! i"
      by (metis nth_append_length_plus)
    also have "\<dots> = bits_of_bytes payload ! i" using iL L8 by (simp add: nth_append)
    also have "\<dots> = take ?L (bits_of_bytes payload) ! i" using iL by simp
    also have "\<dots> = encoded_bits std_sort B ! i" by (simp only: tk)
    also have "\<dots> = (?pb @ path_bits ?tree ?m ys) ! i" by (simp only: pbs)
    also have "\<dots> = ?pb ! i" using i by (simp add: nth_append)
    finally show "bits_of_bytes data ! (?g + i) = ?pb ! i" .
  qed
  have tree: "build_tree ?als = ?tree" by (simp add: encode_tree_def)
  from decode_loop_spec [OF vals h m at cnt' rng bits, of "[]"]
  obtain r where "decode_loop data ?m ?tree (of_nat ?L) ?r0 [] =
      Some (Inr (map (\<lambda>x. \<lparr>letter_value = x, count_occ = 1\<rparr>) xs, r))"
    "bits_read r = unat (of_nat ?L :: 32 word)"
    by auto
  then show ?thesis using run cnt by (auto simp: data_def tree)
qed

lemma encode_depth_bits_pos:
  assumes "std_sort_contract std_sort" and "2 \<le> card (set B)"
  shows "0 < encode_depth_bits std_sort B"
proof -
  let ?vs = "map lvalue (encode_alphabet std_sort B)"
  have "card (set ?vs) = length ?vs"
    by (rule distinct_card) (rule encode_alphabet_props(1) [OF assms(1)])
  then have "length ?vs = card (set ?vs)" by (rule sym)
  also have "\<dots> = card (set B)" by (simp only: encode_alphabet_props(2) [OF assms(1)])
  finally have len: "2 \<le> length ?vs" using assms(2) by simp
  then have ne: "?vs \<noteq> []" by auto
  have "total_nodes (build_tree ?vs) = count_nodes (build_tree ?vs) + 1"
    by (rule count_nodes_total) simp
  moreover have "total_nodes (build_tree ?vs) = length ?vs"
    using build_tree_total_nodes [OF ne] by simp
  ultimately have "0 < count_nodes (build_tree ?vs)" using len by simp
  then have "0 < height (build_tree ?vs)" by (intro height_pos) simp_all
  then show ?thesis by (simp add: encode_depth_bits_def encode_tree_def BitsNeeded_pos)
qed

lemma decode_encode_bytes:
  fixes B :: "byte_t list"
  assumes "std_sort_contract std_sort" and "2 \<le> card (set B)"
    and "length (encoded_bits std_sort B) < 2 ^ 32"
  shows "\<exists>r. decode_run (encode std_sort B) =
            Some (Inr (map (\<lambda>x. \<lparr>letter_value = x, count_occ = 1\<rparr>) B, r)) \<and>
          bits_read r = length (encoded_bits std_sort B)"
proof -
  have ne: "B \<noteq> []" using assms(2) by auto
  have m: "B \<noteq> [] \<longrightarrow> 0 < encode_depth_bits std_sort B"
    using encode_depth_bits_pos [OF assms(1,2)] by simp
  have "unat (of_nat (length (encoded_bits std_sort B)) :: 32 word) = length (encoded_bits std_sort B)"
    using assms(3) by (simp add: unat_of_nat)
  then have cnt: "unat (of_nat (length (encoded_bits std_sort B)) :: 32 word) =
        length (path_bits (encode_tree std_sort B) (encode_depth_bits std_sort B) B)"
    by (simp add: encoded_bits_def)
  from decode_run_encode [OF assms(1) ne _ m cnt, of "[]"]
  show ?thesis by (simp add: encoded_bits_def)
qed

lemma encoded_bits_empty:
  assumes "std_sort_contract std_sort" and "encode_depth_bits std_sort B = 0"
  shows "encoded_bits std_sort B = []"
proof -
  let ?tree = "encode_tree std_sort B"
  have h: "height ?tree = 0"
    using assms(2) BitsNeeded_pos [of "height ?tree"] by (auto simp: encode_depth_bits_def)
  have "letter_bits ?tree 0 x = []" if "x \<in> set B" for x
  proof -
    from path_info_node_finds [OF encode_tree_values [OF assms(1) that], of PathInfo_new 0]
    obtain px where px: "path_info_node PathInfo_new ?tree 0 x = (True, px)"
      by (cases "path_info_node PathInfo_new ?tree 0 x") auto
    from path_info_node_depth [OF px] h have "depth px = 0" by simp
    then show ?thesis using px by (simp add: letter_bits_def path_info_def)
  qed
  then show ?thesis using assms(2) by (simp add: encoded_bits_def path_bits_def)
qed

lemma encode_counter:
  "uint32_at (encode std_sort B) (length (encode std_sort B) - 4) =
     of_nat (length (encoded_bits std_sort B))"
proof -
  from encode_structure [of std_sort B] obtain payload where
    enc: "encode std_sort B = encode_header std_sort B @ payload @
            bytes_of_uint32 (of_nat (length (encoded_bits std_sort B)))"
    by blast
  let ?pre = "encode_header std_sort B @ payload"
  have "length (encode std_sort B) - 4 = length ?pre"
    by (simp add: enc bytes_of_uint32_def)
  moreover have "encode std_sort B = ?pre @ bytes_of_uint32 (of_nat (length (encoded_bits std_sort B)))"
    by (simp add: enc)
  ultimately show ?thesis by (simp only: uint32_at_append)
qed

lemma decode_stops_at_counter:
  fixes B :: "byte_t list"
  assumes c: "std_sort_contract std_sort" and ne: "B \<noteq> []"
    and l: "length (encoded_bits std_sort B) < 2 ^ 32"
  shows "\<exists>occs r. decode_run (encode std_sort B) = Some (Inr (occs, r)) \<and>
           bits_read r = length (encoded_bits std_sort B)"
proof (cases "encode_depth_bits std_sort B = 0")
  case True
  have e: "encoded_bits std_sort B = []" by (rule encoded_bits_empty [OF c True])
  have m: "([] :: byte_t list) \<noteq> [] \<longrightarrow> 0 < encode_depth_bits std_sort B" by simp
  have cnt: "unat (of_nat (length (encoded_bits std_sort B)) :: 32 word) =
        length (path_bits (encode_tree std_sort B) (encode_depth_bits std_sort B) ([] :: byte_t list))"
    by (simp add: e)
  from decode_run_encode [OF c ne _ m cnt, of B] show ?thesis by (auto simp: e)
next
  case False
  then have m: "B \<noteq> [] \<longrightarrow> 0 < encode_depth_bits std_sort B" by simp
  have "unat (of_nat (length (encoded_bits std_sort B)) :: 32 word) = length (encoded_bits std_sort B)"
    using l by (simp add: unat_of_nat)
  then have cnt: "unat (of_nat (length (encoded_bits std_sort B)) :: 32 word) =
        length (path_bits (encode_tree std_sort B) (encode_depth_bits std_sort B) B)"
    by (simp add: encoded_bits_def)
  from decode_run_encode [OF c ne _ m cnt, of "[]"] show ?thesis
    by (auto simp: encoded_bits_def)
qed

text \<open>
  C2, as the code has it: the trailing counter is the number of path bits written,
  reduced modulo \<open>2^32\<close> by its type; when fewer than \<open>2^32\<close> path bits were
  written for a non-empty buffer of bytes, it is that number, and \<open>decode\<close> leaves
  its loop with \<open>bits_read\<close> equal to it, having read no bit beyond the path bits.
\<close>

theorem trailing_counter_and_stop:
  fixes B :: "byte_t list"
  assumes "std_sort_contract std_sort" and "B \<noteq> []"
  shows "uint32_at (encode std_sort B) (length (encode std_sort B) - 4) =
           of_nat (length (encoded_bits std_sort B)) \<and>
         (length (encoded_bits std_sort B) < 2 ^ 32 \<longrightarrow>
            unat (uint32_at (encode std_sort B) (length (encode std_sort B) - 4)) =
              length (encoded_bits std_sort B) \<and>
            (\<exists>occs r. decode_run (encode std_sort B) = Some (Inr (occs, r)) \<and>
               bits_read r = length (encoded_bits std_sort B)))"
  using encode_counter [of std_sort B] decode_stops_at_counter [OF assms]
  by (simp add: unat_of_nat)

theorem trailing_counter_and_stop_witness:
  "std_sort_contract (sort_by_highest_frequency :: byte_t Letter list \<Rightarrow> byte_t Letter list) \<and>
   [65, 65, 65, 66 :: byte_t] \<noteq> [] \<and>
   encode sort_by_highest_frequency [65, 65, 65, 66 :: byte_t] = [1, 1, 65, 66, 8, 5, 0, 0, 0] \<and>
   encoded_bits sort_by_highest_frequency [65, 65, 65, 66 :: byte_t] =
     [False, False, False, True, False] \<and>
   uint32_at [1, 1, 65, 66, 8, 5, 0, 0, 0] 5 = 5 \<and>
   (\<exists>occs r. decode_run [1, 1, 65, 66, 8, 5, 0, 0, 0] = Some (Inr (occs, r)) \<and> bits_read r = 5)"
proof -
  have c: "std_sort_contract (sort_by_highest_frequency :: byte_t Letter list \<Rightarrow> byte_t Letter list)"
    by (rule sort_by_highest_frequency_contract)
  have n: "[65, 65, 65, 66 :: byte_t] \<noteq> []" by simp
  have b: "encoded_bits sort_by_highest_frequency [65, 65, 65, 66 :: byte_t] =
      [False, False, False, True, False]"
    by code_simp
  have e: "encode sort_by_highest_frequency [65, 65, 65, 66 :: byte_t] = [1, 1, 65, 66, 8, 5, 0, 0, 0]"
    by code_simp
  have five: "Suc (Suc (Suc (Suc (Suc 0)))) = 5" by simp
  from trailing_counter_and_stop [OF c n] show ?thesis
    unfolding b e using c b e by (simp add: five)
qed

section \<open>A run longer than the 32-bit counter\<close>

lemma Letter_eqI:
  "lvalue (a :: 's Letter) = v \<Longrightarrow> freq a = f \<Longrightarrow> a = \<lparr>lvalue = v, freq = f\<rparr>"
  by (cases a) simp

lemma construct_alphabet_run_then_other:
  assumes "0 < n"
  shows "construct_alphabet (store_contiguous_values (replicate n (65 :: byte_t) @ [66])) =
     [\<lparr>lvalue = 65, freq = n\<rparr>, \<lparr>lvalue = 66, freq = 1\<rparr>]"
proof -
  let ?B = "replicate n (65 :: byte_t) @ [66]"
  let ?al = "construct_alphabet (store_contiguous_values ?B)"
  have "first_seen ?B = 65 # filter (\<lambda>y. y \<noteq> 65) (first_seen [66])"
    by (rule first_seen_replicate [OF assms])
  then have lv: "map lvalue ?al = [65, 66]" by (simp add: lvalue_construct_alphabet)
  then obtain l1 l2 where al: "?al = [l1, l2]" and v: "lvalue l1 = 65" "lvalue l2 = 66"
    by (auto simp: map_eq_Cons_conv)
  have "freq_of ?al 65 = count_list ?B 65" "freq_of ?al 66 = count_list ?B 66"
    by (rule freq_of_construct_alphabet)+
  then have "freq l1 = n" "freq l2 = 1"
    using v by (simp_all add: al freq_of_def count_list_replicate)
  then have "l1 = \<lparr>lvalue = 65, freq = n\<rparr>" "l2 = \<lparr>lvalue = 66, freq = 1\<rparr>"
    using v by (simp_all add: Letter_eqI)
  then show ?thesis using al by simp
qed

lemma concat_replicate_single: "concat (replicate n [x]) = replicate n x"
  by (induction n) simp_all

lemma encode_run_then_other:
  assumes "0 < n"
  defines "B \<equiv> replicate n (65 :: byte_t) @ [66]"
  shows "encode_tree sort_by_highest_frequency B = Node 65 (Node 66 Nullptr Nullptr) Nullptr"
    and "encode_depth_bits sort_by_highest_frequency B = 1"
    and "encoded_bits sort_by_highest_frequency B = replicate n False @ [True, False]"
    and "path_bits (encode_tree sort_by_highest_frequency B)
           (encode_depth_bits sort_by_highest_frequency B) [65, 65 :: byte_t] = [False, False]"
proof -
  have al: "encode_alphabet sort_by_highest_frequency B =
      [\<lparr>lvalue = 65, freq = n\<rparr>, \<lparr>lvalue = 66, freq = 1\<rparr>]"
    using assms(1)
    by (simp add: encode_alphabet_def B_def construct_alphabet_run_then_other
        sort_by_highest_frequency_def)
  show t: "encode_tree sort_by_highest_frequency B = Node 65 (Node 66 Nullptr Nullptr) Nullptr"
    by (simp add: encode_tree_def al build_tree_def BinaryTree_def INVALID_def)
  show m: "encode_depth_bits sort_by_highest_frequency B = 1"
    by (simp add: encode_depth_bits_def t BitsNeeded.simps [of "Suc 0"])
  have a: "letter_bits (Node 65 (Node 66 Nullptr Nullptr) Nullptr) (Suc 0) (65 :: byte_t) = [False]"
    by (simp add: letter_bits_def path_info_def PathInfo_new_def)
  have b: "letter_bits (Node 65 (Node 66 Nullptr Nullptr) Nullptr) (Suc 0) (66 :: byte_t) = [True, False]"
    by (simp add: letter_bits_def path_info_def PathInfo_new_def bit_Suc_0_iff)
  show "encoded_bits sort_by_highest_frequency B = replicate n False @ [True, False]"
    unfolding encoded_bits_def t m
    by (simp add: B_def path_bits_append path_bits_replicate a b
        path_bits_Cons concat_replicate_single)
  show "path_bits (encode_tree sort_by_highest_frequency B)
           (encode_depth_bits sort_by_highest_frequency B) [65, 65 :: byte_t] = [False, False]"
    by (simp add: t m path_bits_Cons a)
qed

text \<open>
  C2 as stated fails for the buffer of \<open>2^32\<close> bytes 65 followed by one byte 66:
  each 65 is written as one bit and the 66 as two, \<open>2^32 + 2\<close> path bits in all,
  and the counter of 32 bits holds 2.
\<close>

theorem counter_wraps_counterexample:
  "unat (uint32_at (encode sort_by_highest_frequency (replicate 4294967296 (65 :: byte_t) @ [66]))
          (length (encode sort_by_highest_frequency (replicate 4294967296 (65 :: byte_t) @ [66])) - 4))
     = 2 \<and>
   length (encoded_bits sort_by_highest_frequency (replicate 4294967296 (65 :: byte_t) @ [66]))
     = 4294967298"
proof -
  have n: "0 < (4294967296 :: nat)" by simp
  have l: "length (encoded_bits sort_by_highest_frequency (replicate 4294967296 (65 :: byte_t) @ [66]))
     = 4294967298"
    by (simp only: encode_run_then_other(3) [OF n]) simp
  have "(of_nat 4294967298 :: 32 word) = 2" by simp
  then show ?thesis using l by (simp only: encode_counter) simp
qed

text \<open>
  C1 as stated fails for the same buffer: \<open>decode\<close> stops after the two bits the
  counter announces and returns two bytes.
\<close>

theorem roundtrip_counterexample:
  "decode (encode sort_by_highest_frequency (replicate 4294967296 (65 :: byte_t) @ [66])) =
     Some (Inr [65, 65]) \<and>
   [65, 65] \<noteq> replicate 4294967296 (65 :: byte_t) @ [66]"
proof -
  let ?B = "replicate 4294967296 (65 :: byte_t) @ [66]"
  have n: "0 < (4294967296 :: nat)" by simp
  have c: "std_sort_contract (sort_by_highest_frequency :: byte_t Letter list \<Rightarrow> byte_t Letter list)"
    by (rule sort_by_highest_frequency_contract)
  have ne: "?B \<noteq> []" by simp
  have "replicate 4294967296 (65 :: byte_t) = replicate (2 + 4294967294) 65" by simp
  also have "\<dots> = [65, 65] @ replicate 4294967294 65"
    by (simp only: replicate_add) (simp add: numeral_2_eq_2)
  finally have sp: "?B = [65, 65] @ (replicate 4294967294 65 @ [66])" by simp
  have m: "[65, 65 :: byte_t] \<noteq> [] \<longrightarrow> 0 < encode_depth_bits sort_by_highest_frequency ?B"
    by (simp add: encode_run_then_other(2) [OF n])
  have "(of_nat 4294967298 :: 32 word) = 2" by simp
  then have cnt: "unat (of_nat (length (encoded_bits sort_by_highest_frequency ?B)) :: 32 word) =
      length (path_bits (encode_tree sort_by_highest_frequency ?B)
        (encode_depth_bits sort_by_highest_frequency ?B) [65, 65 :: byte_t])"
    by (simp only: encode_run_then_other(3,4) [OF n]) simp
  from decode_run_encode [OF c ne sp m cnt] obtain r where
    "decode_run (encode sort_by_highest_frequency ?B) =
       Some (Inr (map (\<lambda>x. \<lparr>letter_value = x, count_occ = 1\<rparr>) [65, 65], r))"
    by blast
  then have "decode (encode sort_by_highest_frequency ?B) = Some (Inr [65, 65])"
    by (simp add: decode_def)
  moreover have "length [65, 65 :: byte_t] \<noteq> length ?B" by simp
  then have "[65, 65] \<noteq> ?B" by metis
  ultimately show ?thesis by blast
qed

section \<open>The header\<close>

lemma BitsNeeded_le_log: "n < 2 ^ k \<Longrightarrow> BitsNeeded n \<le> k"
proof (induction n arbitrary: k rule: BitsNeeded.induct)
  case (1 n)
  show ?case
  proof (cases "n = 0")
    case True
    then show ?thesis by simp
  next
    case False
    with 1(2) obtain j where k: "k = Suc j" by (cases k) auto
    with 1(2) have "n div 2 < 2 ^ j" by auto
    from 1(1) [OF False this] show ?thesis using False k by (simp add: BitsNeeded.simps [of n])
  qed
qed

lemma distinct_words_length: "distinct (xs :: ('a::len) word list) \<Longrightarrow> length xs \<le> 2 ^ LENGTH('a)"
proof -
  assume "distinct xs"
  then have "length xs = card (set xs)" by (simp add: distinct_card)
  also have "\<dots> \<le> card (UNIV :: 'a word set)" by (intro card_mono) simp_all
  also have "\<dots> = 2 ^ LENGTH('a)" by (simp add: card_word)
  finally show ?thesis .
qed

lemma encode_depth_bits_le_width:
  fixes B :: "('a::len) word list"
  assumes "std_sort_contract std_sort"
  shows "encode_depth_bits std_sort B \<le> LENGTH('a)"
proof -
  let ?vs = "map lvalue (encode_alphabet std_sort B)"
  have "height (build_tree ?vs) < 2 ^ LENGTH('a)"
  proof (cases "?vs = []")
    case True
    then show ?thesis by (simp add: build_tree_def BinaryTree_def)
  next
    case False
    have "height (build_tree ?vs) \<le> count_nodes (build_tree ?vs)"
      by (rule height_le_count_nodes) simp
    moreover have "total_nodes (build_tree ?vs) = count_nodes (build_tree ?vs) + 1"
      by (rule count_nodes_total) simp
    moreover have "total_nodes (build_tree ?vs) = length ?vs"
      using build_tree_total_nodes [OF False] by simp
    moreover have "length ?vs \<le> 2 ^ LENGTH('a)"
      by (rule distinct_words_length) (rule encode_alphabet_props(1) [OF assms])
    ultimately show ?thesis by linarith
  qed
  then show ?thesis
    by (simp add: encode_depth_bits_def encode_tree_def BitsNeeded_le_log)
qed

lemma encode_first_byte: "encode std_sort B ! 0 = of_nat (encode_depth_bits std_sort B)"
proof -
  from encode_structure [of std_sort B] obtain payload where
    "encode std_sort B = encode_header std_sort B @ payload @
       bytes_of_uint32 (of_nat (length (encoded_bits std_sort B)))"
    by blast
  then show ?thesis by (simp add: encode_header_def)
qed

lemma letter_depth_le_height:
  assumes "std_sort_contract std_sort" and "x \<in> set B"
  shows "depth (snd (path_info PathInfo_new (encode_tree std_sort B) x)) \<le> height (encode_tree std_sort B)"
proof -
  from path_info_node_finds [OF encode_tree_values [OF assms], of PathInfo_new 0]
  obtain px where px: "path_info_node PathInfo_new (encode_tree std_sort B) 0 x = (True, px)"
    by (cases "path_info_node PathInfo_new (encode_tree std_sort B) 0 x") auto
  from path_info_node_depth [OF px] show ?thesis using px by (simp add: path_info_def)
qed

text \<open>
  C7. With \<open>BitsNeeded\<close> as the spec describes it and a symbol width the template
  supports (at most 32 bits), the byte at offset 0 of the encoded buffer is
  \<open>max_depth_bits\<close>, not truncated; the height of the tree built from the alphabet
  is at most \<open>2 ^ max_depth_bits - 1\<close>, and so is the depth of every symbol of the
  input.
\<close>

theorem max_depth_bits_fits_height:
  fixes B :: "('a::len) word list"
  assumes "std_sort_contract std_sort" and "LENGTH('a) \<le> 32"
  shows "unat (encode std_sort B ! 0) = BitsNeeded (height (encode_tree std_sort B)) \<and>
         height (encode_tree std_sort B) \<le> 2 ^ unat (encode std_sort B ! 0) - 1 \<and>
         (\<forall>x \<in> set B.
            depth (snd (path_info PathInfo_new (encode_tree std_sort B) x))
              \<le> 2 ^ unat (encode std_sort B ! 0) - 1)"
proof -
  let ?h = "height (encode_tree std_sort B)"
  have "encode_depth_bits std_sort B < 256"
    using encode_depth_bits_le_width [OF assms(1), of B] assms(2) by simp
  then have u: "unat (encode std_sort B ! 0) = BitsNeeded ?h"
    by (simp add: encode_first_byte unat_of_nat encode_depth_bits_def)
  have h: "?h \<le> 2 ^ BitsNeeded ?h - 1" using BitsNeeded_bound [of ?h] by simp
  have "depth (snd (path_info PathInfo_new (encode_tree std_sort B) x)) \<le> 2 ^ BitsNeeded ?h - 1"
    if "x \<in> set B" for x
    using letter_depth_le_height [OF assms(1) that] h by simp
  then show ?thesis using u h by simp
qed

theorem max_depth_bits_fits_height_witness:
  "std_sort_contract (sort_by_highest_frequency :: byte_t Letter list \<Rightarrow> byte_t Letter list) \<and>
   LENGTH(8) \<le> (32 :: nat) \<and>
   encode_tree sort_by_highest_frequency [1, 2, 3, 4, 1, 1, 2 :: byte_t] =
     Node 1 (Node 2 (Node 4 Nullptr Nullptr) Nullptr) (Node 3 Nullptr Nullptr) \<and>
   height (Node 1 (Node 2 (Node 4 Nullptr Nullptr) Nullptr) (Node 3 Nullptr Nullptr)) = 2 \<and>
   unat (encode sort_by_highest_frequency [1, 2, 3, 4, 1, 1, 2 :: byte_t] ! 0) = 2 \<and>
   depth (snd (path_info PathInfo_new
     (Node 1 (Node 2 (Node 4 Nullptr Nullptr) Nullptr) (Node 3 Nullptr Nullptr)) (4 :: byte_t))) \<le> 3"
proof -
  let ?B = "[1, 2, 3, 4, 1, 1, 2 :: byte_t]"
  let ?t = "Node 1 (Node 2 (Node 4 Nullptr Nullptr) Nullptr) (Node 3 Nullptr Nullptr)"
  have c: "std_sort_contract (sort_by_highest_frequency :: byte_t Letter list \<Rightarrow> byte_t Letter list)"
    by (rule sort_by_highest_frequency_contract)
  have w: "LENGTH(8) \<le> (32 :: nat)" by simp
  have a: "encode_alphabet sort_by_highest_frequency ?B =
      [\<lparr>lvalue = 1, freq = 3\<rparr>, \<lparr>lvalue = 2, freq = 2\<rparr>, \<lparr>lvalue = 3, freq = 1\<rparr>,
       \<lparr>lvalue = 4, freq = 1\<rparr>]"
    by code_simp
  have "build_tree [1, 2, 3, 4 :: byte_t] = ?t" by code_simp
  then have t: "encode_tree sort_by_highest_frequency ?B = ?t" by (simp add: encode_tree_def a)
  have h: "height ?t = 2" by simp
  have b: "BitsNeeded 2 = 2" by code_simp
  let ?m = "unat (encode sort_by_highest_frequency ?B ! 0)"
  from max_depth_bits_fits_height [OF c w, of ?B]
  have T: "?m = BitsNeeded (height ?t) \<and> height ?t \<le> 2 ^ ?m - 1 \<and>
      (\<forall>x \<in> set ?B. depth (snd (path_info PathInfo_new ?t x)) \<le> 2 ^ ?m - 1)"
    unfolding t .
  then have u: "?m = 2" by (simp only: h b)
  from T have "\<forall>x \<in> set ?B. depth (snd (path_info PathInfo_new ?t x)) \<le> 2 ^ ?m - 1"
    by blast
  then have "depth (snd (path_info PathInfo_new ?t (4 :: byte_t))) \<le> 2 ^ ?m - 1" by simp
  then have d: "depth (snd (path_info PathInfo_new ?t (4 :: byte_t))) \<le> 3"
    unfolding u by simp
  show ?thesis using c w t h u d by blast
qed

text \<open>
  C10. For the empty input \<open>encode\<close> returns six bytes: \<open>max_depth_bits\<close> for the
  tree that holds only the sentinel, the size byte \<open>0 - 1 = 255\<close>, no alphabet
  entry, no path bit, and the counter 0.
\<close>

theorem encode_empty_input:
  assumes "std_sort_contract std_sort"
  shows "encode std_sort ([] :: ('a::len) word list) =
           [of_nat (BitsNeeded (height BinaryTree)), 255] @ bytes_of_uint32 0 \<and>
         encode_alphabet std_sort ([] :: 'a word list) = [] \<and>
         encoded_bits std_sort ([] :: 'a word list) = [] \<and>
         bytes_of_uint32 0 = [0, 0, 0, 0]"
proof -
  have "std_sort_post [] (std_sort ([] :: 'a word Letter list))"
    using assms by (simp add: std_sort_contract_def)
  then have s: "std_sort ([] :: 'a word Letter list) = []" by (simp add: std_sort_post_def)
  have b: "bytes_of_uint32 0 = [0, 0, 0, 0]" by (simp add: bytes_of_uint32_def upt_rec)
  have m: "(255 :: byte_t) = - 1" by simp
  have u: "(ucast (- 1 :: 64 word) :: byte_t) = 255"
    unfolding m by (rule bit_word_eqI) (simp add: bit_ucast_iff)
  show ?thesis
    by (simp add: encode_def encode_alphabet_def encoded_bits_def construct_alphabet_def s
        build_tree_def b u)
qed

theorem encode_empty_input_witness:
  "std_sort_contract (sort_by_highest_frequency :: byte_t Letter list \<Rightarrow> byte_t Letter list) \<and>
   encode sort_by_highest_frequency ([] :: byte_t list) = [0, 255, 0, 0, 0, 0]"
proof -
  have c: "std_sort_contract (sort_by_highest_frequency :: byte_t Letter list \<Rightarrow> byte_t Letter list)"
    by (rule sort_by_highest_frequency_contract)
  from encode_empty_input [OF c] c show ?thesis
    by (simp add: BinaryTree_def)
qed

text \<open>
  C9 fails on the code for symbols of two bytes: for the values \<open>0x0141, 0x0242\<close>
  the alphabet field of the encoded buffer is the two bytes \<open>0x41, 0x42\<close>, one
  byte for each letter, and \<open>decode\<close> reads one byte for each letter and returns
  the two bytes \<open>0x41, 0x42\<close>.
\<close>

theorem alphabet_entry_one_byte:
  "encode sort_by_highest_frequency [0x0141, 0x0242 :: 16 word] =
     [1, 1, 0x41, 0x42, 2, 3, 0, 0, 0] \<and>
   length (encode_alphabet sort_by_highest_frequency [0x0141, 0x0242 :: 16 word]) = 2 \<and>
   decode [1, 1, 0x41, 0x42, 2, 3, 0, 0, 0] = Some (Inr [0x41, 0x42])"
proof -
  have e16: "encode sort_by_highest_frequency [0x0141, 0x0242 :: 16 word] =
      [1, 1, 0x41, 0x42, 2, 3, 0, 0, 0]"
    by code_simp
  have l16: "length (encode_alphabet sort_by_highest_frequency [0x0141, 0x0242 :: 16 word]) = 2"
    by code_simp
  have c: "std_sort_contract (sort_by_highest_frequency :: byte_t Letter list \<Rightarrow> byte_t Letter list)"
    by (rule sort_by_highest_frequency_contract)
  have e8: "encode sort_by_highest_frequency [0x41, 0x42 :: byte_t] =
      [1, 1, 0x41, 0x42, 2, 3, 0, 0, 0]"
    by code_simp
  have "encoded_bits sort_by_highest_frequency [0x41, 0x42 :: byte_t] = [False, True, False]"
    by code_simp
  then have l: "length (encoded_bits sort_by_highest_frequency [0x41, 0x42 :: byte_t]) < 2 ^ 32"
    by simp
  have d: "2 \<le> card (set [0x41, 0x42 :: byte_t])" by simp
  from decode_encode_bytes [OF c d l] obtain r where
    "decode_run [1, 1, 0x41, 0x42, 2, 3, 0, 0, 0] =
       Some (Inr (map (\<lambda>x. \<lparr>letter_value = x, count_occ = 1\<rparr>) [0x41, 0x42], r))"
    unfolding e8 by blast
  then have "decode [1, 1, 0x41, 0x42, 2, 3, 0, 0, 0] = Some (Inr [0x41, 0x42])"
    by (simp add: decode_def)
  with e16 l16 show ?thesis by blast
qed

section \<open>Insertion order and depth\<close>

lemma shape_Nullptr_iff [simp]: "shape n = Nullptr \<longleftrightarrow> n = Nullptr"
  by (cases n) auto

lemma shape_shape [simp]: "shape (shape n) = shape n"
  by (induction n) auto

lemma count_nodes_shape: "n \<noteq> Nullptr \<Longrightarrow> count_nodes (shape n) = count_nodes n"
  by (induction n) auto

lemma height_shape: "n \<noteq> Nullptr \<Longrightarrow> height (shape n) = height n"
  by (induction n) auto

lemma shape_insert_node:
  "n \<noteq> Nullptr \<Longrightarrow> shape (insert_node n x) = shape (insert_node (shape n) (0 :: byte_t))"
proof (induction n x rule: insert_node.induct)
  case (1 v l r x)
  then show ?case by (auto simp: count_nodes_shape)
next
  case (2 b)
  then show ?case by simp
qed

lemma insert_depth_shape: "n \<noteq> Nullptr \<Longrightarrow> insert_depth (shape n) = insert_depth n"
  by (induction n rule: insert_depth.induct) (auto simp: count_nodes_shape)

lemma count_nodes_insert_node:
  "n \<noteq> Nullptr \<Longrightarrow> count_nodes (insert_node n x) = Suc (count_nodes n)"
  using total_nodes_insert_node [of n x] count_nodes_total [of n]
    count_nodes_total [of "insert_node n x"]
  by simp

lemma height_insert_node:
  "n \<noteq> Nullptr \<Longrightarrow> height (insert_node n x) = max (height n) (insert_depth n)"
proof (induction n x rule: insert_node.induct)
  case (1 v l r x)
  show ?case
  proof (cases "l = Nullptr")
    case True
    then show ?thesis by simp
  next
    case l: False
    show ?thesis
    proof (cases "r = Nullptr")
      case True
      then show ?thesis using l by simp
    next
      case r: False
      show ?thesis
      proof (cases "count_nodes l \<le> count_nodes r")
        case True
        from 1(1) [OF l r True l] have "height (insert_node l x) = max (height l) (insert_depth l)" .
        then show ?thesis using l r True by simp
      next
        case False
        from 1(2) [OF l r False r] have "height (insert_node r x) = max (height r) (insert_depth r)" .
        then show ?thesis using l r False by simp
      qed
    qed
  qed
next
  case (2 b)
  then show ?case by simp
qed


lemma shape_insert_node_cong:
  "a \<noteq> Nullptr \<Longrightarrow> shape a = shape b \<Longrightarrow> shape (insert_node a x) = shape (insert_node b y)"
proof -
  assume a: "a \<noteq> Nullptr" and s: "shape a = shape b"
  then have b: "b \<noteq> Nullptr" by (metis shape_Nullptr_iff)
  show ?thesis
    using shape_insert_node [OF a, of x] shape_insert_node [OF b, of y] s by simp
qed

lemma count_nodes_shape_eq:
  "a \<noteq> Nullptr \<Longrightarrow> shape a = shape b \<Longrightarrow> count_nodes a = count_nodes b"
  by (metis count_nodes_shape shape_Nullptr_iff)

lemma balanced_insert_node:
  "n \<noteq> Nullptr \<Longrightarrow> balanced n \<Longrightarrow> balanced (insert_node n x)"
proof (induction n x rule: insert_node.induct)
  case (1 v l r x)
  from 1(4) have bl: "balanced l" and br: "balanced r" by simp_all
  have leaf: "balanced (Node (uint x) Nullptr Nullptr)" by simp
  show ?case
  proof (cases "l = Nullptr")
    case True
    with 1(4) have r: "r = Nullptr" by simp
    have "insert_node (Node v l r) x = Node v (Node (uint x) Nullptr Nullptr) Nullptr"
      using True r by simp
    then show ?thesis by simp
  next
    case l: False
    show ?thesis
    proof (cases "r = Nullptr")
      case True
      with 1(4) l have sl: "shape l = Node 0 Nullptr Nullptr" by simp
      have "insert_node (Node v l r) x = Node v l (Node (uint x) Nullptr Nullptr)"
        using True l by simp
      then show ?thesis using l bl sl by simp
    next
      case r: False
      from 1(4) l r have sib: "shape l = shape r \<or> shape l = shape (insert_node r (0 :: byte_t))"
        by simp
      have cnt: "count_nodes l = Suc (count_nodes r)" if "shape l = shape (insert_node r (0 :: byte_t))"
        using count_nodes_shape_eq [OF l that] count_nodes_insert_node [OF r, of "0 :: byte_t"]
        by simp
      show ?thesis
      proof (cases "count_nodes l \<le> count_nodes r")
        case True
        with sib cnt have s: "shape l = shape r" by auto
        have il: "insert_node l x \<noteq> Nullptr" using l by simp
        have b': "balanced (insert_node l x)" by (rule 1(1) [OF l r True l bl])
        have s': "shape (insert_node l x) = shape (insert_node r (0 :: byte_t))"
          by (rule shape_insert_node_cong [OF l s])
        have eq: "insert_node (Node v l r) x = Node v (insert_node l x) r"
          using l r True by simp
        have "balanced (Node v (insert_node l x) r)"
          unfolding balanced.simps using il r b' br s' by (simp only: if_False simp_thms)
        then show ?thesis by (simp only: eq)
      next
        case False
        have "shape l \<noteq> shape r" using count_nodes_shape_eq [OF l, of r] False by auto
        with sib have s: "shape l = shape (insert_node r (0 :: byte_t))" by simp
        have ir: "insert_node r x \<noteq> Nullptr" using r by simp
        have b': "balanced (insert_node r x)" by (rule 1(2) [OF l r False r br])
        have "shape (insert_node r (0 :: byte_t)) = shape (insert_node r x)"
          by (rule shape_insert_node_cong [OF r refl])
        with s have s': "shape l = shape (insert_node r x)" by (rule trans)
        have eq: "insert_node (Node v l r) x = Node v l (insert_node r x)"
          using l r False by simp
        have "balanced (Node v l (insert_node r x))"
          unfolding balanced.simps using l ir bl b' s' by (simp only: if_False simp_thms)
        then show ?thesis by (simp only: eq)
      qed
    qed
  qed
next
  case (2 b)
  then show ?case by simp
qed

lemma height_shape_eq: "a \<noteq> Nullptr \<Longrightarrow> shape a = shape b \<Longrightarrow> height a = height b"
  by (metis height_shape shape_Nullptr_iff)

lemma height_le_insert_depth:
  "n \<noteq> Nullptr \<Longrightarrow> balanced n \<Longrightarrow> height n \<le> insert_depth n"
proof (induction n)
  case Nullptr
  then show ?case by simp
next
  case (Node v l r)
  from Node.prems(2) have bl: "balanced l" and br: "balanced r" by simp_all
  show ?case
  proof (cases "l = Nullptr")
    case True
    then show ?thesis using Node.prems(2) by simp
  next
    case l: False
    show ?thesis
    proof (cases "r = Nullptr")
      case True
      with Node.prems(2) l have "shape l = Node 0 Nullptr Nullptr" by simp
      then have "height l = height (Node 0 Nullptr Nullptr)"
        using height_shape [OF l] by simp
      then show ?thesis using True l by simp
    next
      case r: False
      from Node.prems(2) l r
      have sib: "shape l = shape r \<or> shape l = shape (insert_node r (0 :: byte_t))" by simp
      have cnt: "count_nodes l = Suc (count_nodes r)" if "shape l = shape (insert_node r (0 :: byte_t))"
        using count_nodes_shape_eq [OF l that] count_nodes_insert_node [OF r, of "0 :: byte_t"]
        by simp
      have ihl: "height l \<le> insert_depth l" by (rule Node.IH(1) [OF l bl])
      have ihr: "height r \<le> insert_depth r" by (rule Node.IH(2) [OF r br])
      show ?thesis
      proof (cases "count_nodes l \<le> count_nodes r")
        case True
        with sib cnt have s: "shape l = shape r" by auto
        have "height l = height r" by (rule height_shape_eq [OF l s])
        then show ?thesis using l r True ihl by simp
      next
        case False
        have "shape l \<noteq> shape r" using count_nodes_shape_eq [OF l, of r] False by auto
        with sib have s: "shape l = shape (insert_node r (0 :: byte_t))" by simp
        have "height l = height (insert_node r (0 :: byte_t))"
          by (rule height_shape_eq [OF l s])
        also have "\<dots> = max (height r) (insert_depth r)" by (rule height_insert_node [OF r])
        also have "\<dots> = insert_depth r" using ihr by simp
        finally show ?thesis using l r False ihr by simp
      qed
    qed
  qed
qed

lemma balanced_build_tree: "balanced (build_tree xs)"
proof (induction xs rule: rev_induct)
  case Nil
  then show ?case by (simp add: build_tree_def BinaryTree_def)
next
  case (snoc x xs)
  obtain v l r where t: "build_tree xs = Node v l r"
    using build_tree_not_null [of xs] by (cases "build_tree xs") auto
  show ?case
  proof (cases "v = INVALID")
    case True
    then show ?thesis using snoc t by (simp add: build_tree_snoc)
  next
    case False
    have "balanced (insert_node (Node v l r) x)"
      using snoc t by (intro balanced_insert_node) simp_all
    then show ?thesis using False t by (simp add: build_tree_snoc del: insert_node.simps)
  qed
qed

lemma node_depths_insert_node:
  "n \<noteq> Nullptr \<Longrightarrow>
   node_depths (insert_node n x) d = node_depths n d \<union> {(uint x, d + insert_depth n)}"
  by (induction n x arbitrary: d rule: insert_node.induct) auto

lemma node_depths_height: "(v, k) \<in> node_depths n d \<Longrightarrow> k \<le> d + height n"
proof (induction n arbitrary: d)
  case Nullptr
  then show ?case by simp
next
  case (Node w l r)
  from Node.prems consider "k = d" | "(v, k) \<in> node_depths l (Suc d)" | "(v, k) \<in> node_depths r (Suc d)"
    by auto
  then show ?case
  proof cases
    case 1
    then show ?thesis by simp
  next
    case 2
    then have "l \<noteq> Nullptr" by auto
    with Node.IH(1) [OF 2] show ?thesis by simp
  next
    case 3
    then have "r \<noteq> Nullptr" by auto
    with Node.IH(2) [OF 3] show ?thesis by simp
  qed
qed

lemma path_info_node_depths:
  "path_info_node p n d x = (True, p') \<Longrightarrow> (uint x, depth p') \<in> node_depths n d"
proof (induction p n d x arbitrary: p' rule: path_info_node.induct)
  case (1 pathInfo d x)
  then show ?case by simp
next
  case (2 pathInfo v l r d x)
  show ?case
  proof (cases "v = uint x")
    case True
    with 2(3) show ?thesis by auto
  next
    case False
    obtain fl p1 where L: "path_info_node pathInfo l (Suc d) x = (fl, p1)"
      by (cases "path_info_node pathInfo l (Suc d) x")
    show ?thesis
    proof (cases fl)
      case True
      with False L 2(3) have p': "p' = p1\<lparr>bit_path := unset_bit d (bit_path p1)\<rparr>" by simp
      from 2(1) [OF False] L True have "(uint x, depth p1) \<in> node_depths l (Suc d)" by simp
      then show ?thesis using p' by simp
    next
      case fl: False
      obtain fr p2 where R: "path_info_node (p1\<lparr>bit_path := set_bit d (bit_path p1)\<rparr>) r (Suc d) x = (fr, p2)"
        by (cases "path_info_node (p1\<lparr>bit_path := set_bit d (bit_path p1)\<rparr>) r (Suc d) x")
      with False L fl 2(3) have fr: fr and p': "p' = p2\<lparr>bit_path := set_bit d (bit_path p2)\<rparr>"
        by (auto split: if_splits)
      from 2(2) [OF False L [symmetric]] fl R fr have "(uint x, depth p2) \<in> node_depths r (Suc d)"
        by simp
      then show ?thesis using p' by simp
    qed
  qed
qed


lemma node_depths_build_tree_single: "node_depths (build_tree [x]) 0 = {(uint x, 0)}"
  by (simp add: build_tree_def BinaryTree_def)

lemma node_depths_build_tree_snoc:
  assumes "xs \<noteq> []"
  shows "node_depths (build_tree (xs @ [x])) 0 =
     node_depths (build_tree xs) 0 \<union> {(uint x, insert_depth (build_tree xs))}"
proof -
  obtain v l r where t: "build_tree xs = Node v l r"
    using build_tree_not_null [of xs] by (cases "build_tree xs") auto
  from build_tree_total_nodes [OF assms] t have v: "v \<noteq> INVALID" by simp
  have "build_tree (xs @ [x]) = insert_node (build_tree xs) x"
    using v by (simp add: build_tree_snoc t)
  then show ?thesis
    using node_depths_insert_node [of "build_tree xs" x 0] by simp
qed

lemma insertion_depths_monotone:
  "xs \<noteq> [] \<Longrightarrow>
   \<exists>f. node_depths (build_tree xs) 0 = (\<lambda>i. (uint (xs ! i), f i)) ` {..<length xs} \<and>
       (\<forall>i j. i \<le> j \<and> j < length xs \<longrightarrow> f i \<le> (f j :: nat))"
proof (induction xs rule: rev_induct)
  case Nil
  then show ?case by simp
next
  case (snoc x xs)
  show ?case
  proof (cases "xs = []")
    case True
    have "node_depths (build_tree [x]) 0 = (\<lambda>i. (uint ([x] ! i), 0 :: nat)) ` {..<length [x]}"
      by (simp add: node_depths_build_tree_single lessThan_Suc)
    then show ?thesis using True by (intro exI [of _ "\<lambda>i. 0"]) simp
  next
    case False
    from snoc.IH [OF False] obtain f where
      f: "node_depths (build_tree xs) 0 = (\<lambda>i. (uint (xs ! i), f i)) ` {..<length xs}"
      and mono: "\<forall>i j. i \<le> j \<and> j < length xs \<longrightarrow> f i \<le> (f j :: nat)"
      by blast
    let ?n = "length xs"
    let ?D = "insert_depth (build_tree xs)"
    let ?f = "f(?n := ?D)"
    have le: "f i \<le> ?D" if "i < ?n" for i
    proof -
      from that have "(uint (xs ! i), f i) \<in> node_depths (build_tree xs) 0" by (simp add: f)
      from node_depths_height [OF this] have "f i \<le> height (build_tree xs)" by simp
      also have "\<dots> \<le> ?D" by (rule height_le_insert_depth) (simp_all add: balanced_build_tree)
      finally show ?thesis .
    qed
    have "(\<lambda>i. (uint ((xs @ [x]) ! i), ?f i)) ` {..<?n} = (\<lambda>i. (uint (xs ! i), f i)) ` {..<?n}"
      by (rule image_cong) (simp_all add: nth_append)
    then have "(\<lambda>i. (uint ((xs @ [x]) ! i), ?f i)) ` {..<length (xs @ [x])} =
        node_depths (build_tree xs) 0 \<union> {(uint x, ?D)}"
      by (simp add: lessThan_Suc f)
    then have 1: "node_depths (build_tree (xs @ [x])) 0 =
        (\<lambda>i. (uint ((xs @ [x]) ! i), ?f i)) ` {..<length (xs @ [x])}"
      by (simp only: node_depths_build_tree_snoc [OF False])
    have 2: "\<forall>i j. i \<le> j \<and> j < length (xs @ [x]) \<longrightarrow> ?f i \<le> ?f j"
    proof (intro allI impI)
      fix i j assume ij: "i \<le> j \<and> j < length (xs @ [x])"
      show "?f i \<le> ?f j"
      proof (cases "j = ?n")
        case True
        then show ?thesis using ij le [of i] by (cases "i = ?n") auto
      next
        case False
        with ij have "j < ?n" "i < ?n" by auto
        then show ?thesis using mono ij by auto
      qed
    qed
    from 1 2 show ?thesis by blast
  qed
qed

lemma path_info_depth_index:
  assumes d: "distinct xs" and k: "k < length xs"
    and f: "node_depths (build_tree xs) 0 = (\<lambda>i. (uint (xs ! i), f i)) ` {..<length xs}"
  shows "depth (snd (path_info p0 (build_tree xs) (xs ! k))) = f k"
proof -
  let ?t = "build_tree xs"
  have "xs ! k \<in> set xs" using k by simp
  then have "uint (xs ! k) \<in> node_values ?t"
    using node_values_build_tree [of xs] uint_not_INVALID [of "xs ! k"] by blast
  from path_info_node_finds [OF this, of p0 0]
  obtain p where p: "path_info_node p0 ?t 0 (xs ! k) = (True, p)"
    by (cases "path_info_node p0 ?t 0 (xs ! k)") auto
  from path_info_node_depths [OF p] f obtain k' where
    k': "k' < length xs" "uint (xs ! k) = uint (xs ! k')" "depth p = f k'"
    by auto
  from k'(2) have "xs ! k = xs ! k'" by (simp add: word_uint_eq_iff)
  with d k k'(1) have "k = k'" by (simp add: nth_eq_iff_index_eq)
  then show ?thesis using p k'(3) by (simp add: path_info_def)
qed

text \<open>
  C8. When distinct symbols are inserted one after the other, each new node is
  placed at a depth that is at least the depth of every node already in the tree:
  in the tree built from the list, a symbol that comes earlier in the list lies no
  deeper than one that comes later.
\<close>

theorem earlier_insertions_not_deeper:
  assumes "distinct xs" and "i \<le> j" and "j < length xs"
  shows "depth (snd (path_info PathInfo_new (build_tree xs) (xs ! i)))
           \<le> depth (snd (path_info PathInfo_new (build_tree xs) (xs ! j)))"
proof -
  from assms(3) have ne: "xs \<noteq> []" by auto
  from insertion_depths_monotone [OF ne] obtain f where
    f: "node_depths (build_tree xs) 0 = (\<lambda>i. (uint (xs ! i), f i)) ` {..<length xs}"
    and mono: "\<forall>i j. i \<le> j \<and> j < length xs \<longrightarrow> f i \<le> (f j :: nat)"
    by blast
  have i: "i < length xs" using assms(2,3) by simp
  have "depth (snd (path_info PathInfo_new (build_tree xs) (xs ! i))) = f i"
    by (rule path_info_depth_index [OF assms(1) i f])
  moreover have "depth (snd (path_info PathInfo_new (build_tree xs) (xs ! j))) = f j"
    by (rule path_info_depth_index [OF assms(1) assms(3) f])
  ultimately show ?thesis using mono assms(2,3) by simp
qed

theorem earlier_insertions_not_deeper_witness:
  "distinct [1, 2, 3, 4, 5 :: byte_t] \<and> (1 :: nat) \<le> 4 \<and> 4 < length [1, 2, 3, 4, 5 :: byte_t] \<and>
   build_tree [1, 2, 3, 4, 5 :: byte_t] =
     Node 1 (Node 2 (Node 4 Nullptr Nullptr) Nullptr) (Node 3 (Node 5 Nullptr Nullptr) Nullptr) \<and>
   depth (snd (path_info PathInfo_new (build_tree [1, 2, 3, 4, 5 :: byte_t]) (2 :: byte_t)))
     \<le> depth (snd (path_info PathInfo_new (build_tree [1, 2, 3, 4, 5 :: byte_t]) (5 :: byte_t)))"
proof -
  have d: "distinct [1, 2, 3, 4, 5 :: byte_t]" by simp
  have l: "4 < length [1, 2, 3, 4, 5 :: byte_t]" by simp
  have t: "build_tree [1, 2, 3, 4, 5 :: byte_t] =
     Node 1 (Node 2 (Node 4 Nullptr Nullptr) Nullptr) (Node 3 (Node 5 Nullptr Nullptr) Nullptr)"
    by code_simp
  from earlier_insertions_not_deeper [OF d _ l, of 1] d l t show ?thesis by simp
qed

section \<open>A buffer with one distinct value\<close>

text \<open>
  With \<open>BitsNeeded 0 = 0\<close> a buffer that repeats one byte is written without any
  path bit, and \<open>decode\<close> returns the empty buffer for it.
\<close>

lemma single_value_decodes_empty:
  "encode sort_by_highest_frequency [65, 65, 65 :: byte_t] = [0, 0, 65, 0, 0, 0, 0] \<and>
   decode [0, 0, 65, 0, 0, 0, 0] = Some (Inr [])"
proof -
  let ?B = "[65, 65, 65 :: byte_t]"
  have e: "encode sort_by_highest_frequency ?B = [0, 0, 65, 0, 0, 0, 0]" by code_simp
  have c: "std_sort_contract (sort_by_highest_frequency :: byte_t Letter list \<Rightarrow> byte_t Letter list)"
    by (rule sort_by_highest_frequency_contract)
  have b: "encoded_bits sort_by_highest_frequency ?B = []" by code_simp
  have m: "([] :: byte_t list) \<noteq> [] \<longrightarrow> 0 < encode_depth_bits sort_by_highest_frequency ?B"
    by simp
  have cnt: "unat (of_nat (length (encoded_bits sort_by_highest_frequency ?B)) :: 32 word) =
      length (path_bits (encode_tree sort_by_highest_frequency ?B)
        (encode_depth_bits sort_by_highest_frequency ?B) ([] :: byte_t list))"
    by (simp add: b)
  have ne: "?B \<noteq> []" by simp
  from decode_run_encode [OF c ne _ m cnt, of ?B] obtain r where
    "decode_run [0, 0, 65, 0, 0, 0, 0] = Some (Inr ([], r))"
    unfolding e by auto
  then have "decode [0, 0, 65, 0, 0, 0, 0] = Some (Inr [])" by (simp add: decode_def)
  with e show ?thesis by blast
qed

section \<open>The round trip, for any \<open>BitsNeeded\<close>\<close>

lemma encode_with_BitsNeeded: "encode_with BitsNeeded std_sort values = encode std_sort values"
  by (simp add: encode_with_def encode_def)

lemma encoded_bits_with_BitsNeeded:
  "encoded_bits_with BitsNeeded std_sort values = encoded_bits std_sort values"
  by (simp add: encoded_bits_with_def encoded_bits_def encode_depth_bits_with_def
      encode_depth_bits_def)

lemma encode_with_eq:
  "encode_with bits_needed std_sort values =
     (let w = put_bits (encoded_bits_with bits_needed std_sort values)
                \<lparr>result = encode_header_with bits_needed std_sort values, result_byte = 0,
                 written_bits_on_result_byte = 0, written_bits = 0\<rparr>
      in (if written_bits_on_result_byte w > 0 then result w @ [result_byte w] else result w)
         @ bytes_of_uint32 (written_bits w))"
  by (simp add: encode_with_def Let_def foldl_encode_occurrence store_contiguous_values_expand
      encoded_bits_with_def encode_tree_def encode_depth_bits_with_def encode_header_with_def encode_alphabet_def)

lemma encode_with_structure:
  fixes std_sort :: "('a::len) word Letter list \<Rightarrow> 'a word Letter list"
    and bits_needed :: "nat \<Rightarrow> nat"
  defines "L \<equiv> \<lambda>values. length (encoded_bits_with bits_needed std_sort values)"
  shows "\<exists>payload.
     encode_with bits_needed std_sort values =
       encode_header_with bits_needed std_sort values @ payload @ bytes_of_uint32 (of_nat (L values)) \<and>
     length payload = (L values + 7) div 8 \<and>
     take (L values) (bits_of_bytes payload) = encoded_bits_with bits_needed std_sort values"
proof -
  let ?bits = "encoded_bits_with bits_needed std_sort values"
  let ?h = "encode_header_with bits_needed std_sort values"
  let ?init = "\<lparr>result = ?h, result_byte = 0, written_bits_on_result_byte = 0, written_bits = 0\<rparr>"
  let ?w = "put_bits ?bits ?init"
  let ?n = "written_bits_on_result_byte ?w"
  let ?flushed = "if ?n > 0 then result ?w @ [result_byte ?w] else result ?w"
  have ok0: "writer_ok ?init" by (simp add: writer_ok_def)
  have wb0: "writer_bits ?init = bits_of_bytes ?h" by (simp add: writer_bits_def)
  have spec: "writer_ok ?w \<and> writer_bits ?w = writer_bits ?init @ ?bits \<and>
      written_bits ?w = written_bits ?init + of_nat (length ?bits)"
    by (rule put_bits_spec [OF ok0])
  from spec have ok: "writer_ok ?w" by blast
  from spec have wb: "writer_bits ?w = bits_of_bytes ?h @ ?bits" by (simp only: wb0)
  from spec have cnt: "written_bits ?w = of_nat (L values)" by (simp add: L_def)
  from result_put_bits [of ?bits ?init] obtain ys where ys: "result ?w = ?h @ ys" by auto
  define payload where "payload = (if ?n > 0 then ys @ [result_byte ?w] else ys)"
  have fl: "?flushed = ?h @ payload" by (simp add: payload_def ys)
  have len: "8 * length (result ?w) + ?n = 8 * length ?h + L values"
    using length_writer_bits [OF ok] wb by (simp add: L_def)
  have n8: "?n < 8" using ok by (simp add: writer_ok_def)
  have lp: "length payload = (L values + 7) div 8"
    using len n8 by (auto simp: payload_def ys)
  have "take (length (writer_bits ?w)) (bits_of_bytes ?flushed) = writer_bits ?w"
    using flush_bits [OF ok] by simp
  then have "take (8 * length ?h + L values) (bits_of_bytes ?h @ bits_of_bytes payload) =
      bits_of_bytes ?h @ ?bits"
    by (simp only: fl wb bits_of_bytes_append length_append length_bits_of_bytes L_def)
  then have tk: "take (L values) (bits_of_bytes payload) = ?bits" by simp
  have "encode_with bits_needed std_sort values = ?flushed @ bytes_of_uint32 (written_bits ?w)"
    by (simp add: encode_with_eq Let_def)
  then have "encode_with bits_needed std_sort values = ?h @ payload @ bytes_of_uint32 (of_nat (L values))"
    by (simp only: fl cnt append_assoc)
  with lp tk show ?thesis by blast
qed

lemma decode_run_encode_with:
  fixes B :: "byte_t list"
  assumes c: "std_sort_contract std_sort" and ne: "B \<noteq> []" and sp: "B = xs @ ys"
    and m: "xs \<noteq> [] \<longrightarrow> 0 < encode_depth_bits_with bits_needed std_sort B"
    and m256: "encode_depth_bits_with bits_needed std_sort B < 256"
    and h: "height (encode_tree std_sort B) < 2 ^ encode_depth_bits_with bits_needed std_sort B"
    and cnt: "unat (of_nat (length (encoded_bits_with bits_needed std_sort B)) :: 32 word) =
        length (path_bits (encode_tree std_sort B) (encode_depth_bits_with bits_needed std_sort B) xs)"
  shows "\<exists>r. decode_run (encode_with bits_needed std_sort B) =
            Some (Inr (map (\<lambda>x. \<lparr>letter_value = x, count_occ = 1\<rparr>) xs, r)) \<and>
          bits_read r = length (path_bits (encode_tree std_sort B) (encode_depth_bits_with bits_needed std_sort B) xs)"
proof -
  let ?al = "encode_alphabet std_sort B"
  let ?tree = "encode_tree std_sort B"
  let ?m = "encode_depth_bits_with bits_needed std_sort B"
  let ?L = "length (encoded_bits_with bits_needed std_sort B)"
  let ?n = "length ?al"
  let ?nb = "ucast ((of_nat ?n :: 64 word) - 1) :: byte_t"
  let ?als = "map lvalue ?al"
  define data where "data = encode_with bits_needed std_sort B"
  from encode_with_structure [of bits_needed std_sort B] obtain payload where
    enc: "encode_with bits_needed std_sort B = encode_header_with bits_needed std_sort B @ payload @ bytes_of_uint32 (of_nat ?L)"
    and lp: "length payload = (?L + 7) div 8"
    and tk: "take ?L (bits_of_bytes payload) = encoded_bits_with bits_needed std_sort B"
    by blast
  have hd: "encode_header_with bits_needed std_sort B = [of_nat ?m, ?nb] @ ?als"
    by (simp add: encode_header_with_def)
  have d: "data = [of_nat ?m, ?nb] @ ?als @ payload @ bytes_of_uint32 (of_nat ?L)"
    by (simp add: data_def enc hd)
  have n1: "1 \<le> ?n" and n256: "?n \<le> 256" using encode_alphabet_length [OF c ne] by auto
  have nb: "unat ?nb + 1 = length ?als" using alphabet_size_byte [OF n1 n256] by simp
  let ?r0 = "\<lparr>read_bytes = 2 + length ?als, read_bits_on_result_byte = 0, bits_read = 0\<rparr>"
  have run: "decode_run data = decode_loop data ?m (build_tree ?als) (of_nat ?L) ?r0 []"
    by (rule decode_run_shape [OF d m256 nb])
  let ?g = "8 * (2 + ?n)"
  let ?pb = "path_bits ?tree ?m xs"
  have pbs: "encoded_bits_with bits_needed std_sort B = ?pb @ path_bits ?tree ?m ys"
    by (simp add: encoded_bits_with_def sp path_bits_append)
  then have lpb: "length ?pb \<le> ?L" by simp
  have L8: "?L \<le> 8 * length payload" using lp by simp
  have vals: "\<forall>x \<in> set xs. uint x \<in> node_values ?tree"
    using encode_tree_values [OF c, of _ B] sp by simp
  have at: "reader_at ?r0 ?g 0" by (simp add: reader_at_def)
  have cnt': "unat (of_nat ?L :: 32 word) = 0 + length ?pb" using cnt by simp
  have len: "length data = 2 + ?n + length payload + 4"
    by (simp add: d bytes_of_uint32_def)
  have rng: "?g + length ?pb \<le> 8 * length data" using lpb L8 len by simp
  have bits: "\<forall>i < length ?pb. bits_of_bytes data ! (?g + i) = ?pb ! i"
  proof (intro allI impI)
    fix i assume i: "i < length ?pb"
    then have iL: "i < ?L" using lpb by simp
    have "bits_of_bytes data =
        bits_of_bytes ([of_nat ?m, ?nb] @ ?als) @ bits_of_bytes payload @
        bits_of_bytes (bytes_of_uint32 (of_nat ?L))"
      by (simp only: d bits_of_bytes_append append_assoc)
    moreover have "length (bits_of_bytes ([of_nat ?m, ?nb] @ ?als)) = ?g" by simp
    ultimately have "bits_of_bytes data ! (?g + i) =
        (bits_of_bytes payload @ bits_of_bytes (bytes_of_uint32 (of_nat ?L))) ! i"
      by (metis nth_append_length_plus)
    also have "\<dots> = bits_of_bytes payload ! i" using iL L8 by (simp add: nth_append)
    also have "\<dots> = take ?L (bits_of_bytes payload) ! i" using iL by simp
    also have "\<dots> = encoded_bits_with bits_needed std_sort B ! i" by (simp only: tk)
    also have "\<dots> = (?pb @ path_bits ?tree ?m ys) ! i" by (simp only: pbs)
    also have "\<dots> = ?pb ! i" using i by (simp add: nth_append)
    finally show "bits_of_bytes data ! (?g + i) = ?pb ! i" .
  qed
  have tree: "build_tree ?als = ?tree" by (simp add: encode_tree_def)
  from decode_loop_spec [OF vals h m at cnt' rng bits, of "[]"]
  obtain r where "decode_loop data ?m ?tree (of_nat ?L) ?r0 [] =
      Some (Inr (map (\<lambda>x. \<lparr>letter_value = x, count_occ = 1\<rparr>) xs, r))"
    "bits_read r = unat (of_nat ?L :: 32 word)"
    by auto
  then show ?thesis using run cnt by (auto simp: data_def tree)
qed

lemma encode_tree_height:
  assumes "std_sort_contract std_sort" and "B \<noteq> []"
  shows "height (encode_tree std_sort B) < length (encode_alphabet std_sort B)"
    and "2 \<le> card (set B) \<Longrightarrow> 0 < height (encode_tree std_sort B)"
proof -
  let ?vs = "map lvalue (encode_alphabet std_sort B)"
  have sv: "set ?vs = set B" by (rule encode_alphabet_props(2) [OF assms(1)])
  then have ne: "?vs \<noteq> []" using assms(2) by (metis set_empty)
  have hc: "height (build_tree ?vs) \<le> count_nodes (build_tree ?vs)"
    by (rule height_le_count_nodes) simp
  have tc: "total_nodes (build_tree ?vs) = count_nodes (build_tree ?vs) + 1"
    by (rule count_nodes_total) simp
  have tl: "total_nodes (build_tree ?vs) = length ?vs"
    using build_tree_total_nodes [OF ne] by simp
  from hc tc tl show "height (encode_tree std_sort B) < length (encode_alphabet std_sort B)"
    by (simp add: encode_tree_def)
  assume two: "2 \<le> card (set B)"
  have "card (set ?vs) = length ?vs"
    by (rule distinct_card) (rule encode_alphabet_props(1) [OF assms(1)])
  then have "2 \<le> length ?vs" using two by (simp only: sv)
  then have "0 < count_nodes (build_tree ?vs)" using tc tl by simp
  then have "0 < height (build_tree ?vs)" by (intro height_pos) simp_all
  then show "0 < height (encode_tree std_sort B)" by (simp add: encode_tree_def)
qed

text \<open>
  C1, as the code has it. \<open>BitsNeeded\<close> is not among the sources; whatever it
  computes, as long as the width it returns holds its argument and a width for a
  height below 256 fits the header byte, a non-empty buffer of bytes (symbol width
  1) for which fewer than \<open>2^32\<close> path bits are written is decoded from its
  encoding, for every order \<open>std::sort\<close> leaves among equal frequencies, when
  \<open>BitsNeeded(0)\<close> is positive or the buffer holds two distinct values.
\<close>

theorem decode_encode_roundtrip:
  fixes B :: "byte_t list"
  assumes "std_sort_contract std_sort"
    and "\<forall>n. n < 2 ^ bits_needed n"
    and "\<forall>n. n < 256 \<longrightarrow> bits_needed n < 256"
    and "B \<noteq> []"
    and "0 < bits_needed 0 \<or> 2 \<le> card (set B)"
    and "length (encoded_bits_with bits_needed std_sort B) < 2 ^ 32"
  shows "decode (encode_with bits_needed std_sort B) = Some (Inr B)"
proof -
  let ?h = "height (encode_tree std_sort B)"
  let ?m = "encode_depth_bits_with bits_needed std_sort B"
  have m: "?m = bits_needed ?h" by (simp add: encode_depth_bits_with_def)
  have "?h < length (encode_alphabet std_sort B)"
    by (rule encode_tree_height(1) [OF assms(1,4)])
  then have "?h < 256" using encode_alphabet_length(2) [OF assms(1,4)] by simp
  then have m256: "?m < 256" using assms(3) m by simp
  have fit: "?h < 2 ^ ?m" using assms(2) m by simp
  have pos: "0 < ?m"
  proof (cases "?h = 0")
    case True
    have "\<not> 2 \<le> card (set B)" using encode_tree_height(2) [OF assms(1,4)] True by auto
    then show ?thesis using assms(5) m True by simp
  next
    case False
    show ?thesis
    proof (rule ccontr)
      assume "\<not> 0 < ?m"
      then have "?h < 1" using fit by simp
      then show False using False by simp
    qed
  qed
  then have mp: "B \<noteq> [] \<longrightarrow> 0 < ?m" by simp
  have "unat (of_nat (length (encoded_bits_with bits_needed std_sort B)) :: 32 word) =
      length (encoded_bits_with bits_needed std_sort B)"
    using assms(6) by (simp add: unat_of_nat)
  then have cnt: "unat (of_nat (length (encoded_bits_with bits_needed std_sort B)) :: 32 word) =
        length (path_bits (encode_tree std_sort B) ?m B)"
    by (simp add: encoded_bits_with_def)
  from decode_run_encode_with [OF assms(1,4) _ mp m256 fit cnt, of "[]"] obtain r where
    "decode_run (encode_with bits_needed std_sort B) =
       Some (Inr (map (\<lambda>x. \<lparr>letter_value = x, count_occ = 1\<rparr>) B, r))"
    by auto
  then show ?thesis by (simp add: decode_def comp_def)
qed

lemma at_least_one_bit:
  "\<forall>n. n < 2 ^ max 1 (BitsNeeded n)" "\<forall>n. n < 256 \<longrightarrow> max 1 (BitsNeeded n) < 256"
proof -
  have "n < 2 ^ max 1 (BitsNeeded n)" for n
  proof -
    have "n < 2 ^ BitsNeeded n" by (rule BitsNeeded_bound)
    also have "(2 :: nat) ^ BitsNeeded n \<le> 2 ^ max 1 (BitsNeeded n)"
      by (rule power_increasing) simp_all
    finally show ?thesis .
  qed
  then show "\<forall>n. n < 2 ^ max 1 (BitsNeeded n)" by blast
  show "\<forall>n. n < 256 \<longrightarrow> max 1 (BitsNeeded n) < 256"
    using BitsNeeded_le by (auto simp: max_def intro: le_less_trans)
qed

theorem decode_encode_roundtrip_witness:
  "encode_with (\<lambda>n. max 1 (BitsNeeded n)) sort_by_highest_frequency [65, 65, 65 :: byte_t] =
     [1, 0, 65, 0, 3, 0, 0, 0] \<and>
   decode [1, 0, 65, 0, 3, 0, 0, 0] = Some (Inr [65, 65, 65]) \<and>
   encode_with BitsNeeded sort_by_highest_frequency [65, 65, 65, 66 :: byte_t] =
     [1, 1, 65, 66, 8, 5, 0, 0, 0] \<and>
   decode [1, 1, 65, 66, 8, 5, 0, 0, 0] = Some (Inr [65, 65, 65, 66])"
proof -
  have c: "std_sort_contract (sort_by_highest_frequency :: byte_t Letter list \<Rightarrow> byte_t Letter list)"
    by (rule sort_by_highest_frequency_contract)
  have e1: "encode_with (\<lambda>n. max 1 (BitsNeeded n)) sort_by_highest_frequency [65, 65, 65 :: byte_t] =
      [1, 0, 65, 0, 3, 0, 0, 0]"
    by code_simp
  have "encoded_bits_with (\<lambda>n. max 1 (BitsNeeded n)) sort_by_highest_frequency
      [65, 65, 65 :: byte_t] = [False, False, False]"
    by code_simp
  then have l1: "length (encoded_bits_with (\<lambda>n. max 1 (BitsNeeded n)) sort_by_highest_frequency
      [65, 65, 65 :: byte_t]) < 2 ^ 32"
    by simp
  have p1: "0 < max 1 (BitsNeeded 0) \<or> 2 \<le> card (set [65, 65, 65 :: byte_t])" by simp
  have n1: "[65, 65, 65 :: byte_t] \<noteq> []" by simp
  have d1: "decode [1, 0, 65, 0, 3, 0, 0, 0] = Some (Inr [65, 65, 65])"
    using decode_encode_roundtrip [OF c at_least_one_bit n1 p1 l1] by (simp only: e1)
  have e2: "encode_with BitsNeeded sort_by_highest_frequency [65, 65, 65, 66 :: byte_t] =
      [1, 1, 65, 66, 8, 5, 0, 0, 0]"
    by code_simp
  have "encoded_bits_with BitsNeeded sort_by_highest_frequency [65, 65, 65, 66 :: byte_t] =
      [False, False, False, True, False]"
    by code_simp
  then have l2: "length (encoded_bits_with BitsNeeded sort_by_highest_frequency
      [65, 65, 65, 66 :: byte_t]) < 2 ^ 32"
    by simp
  have b1: "\<forall>n. n < 2 ^ BitsNeeded n" by (simp add: BitsNeeded_bound)
  have b2: "\<forall>n. n < 256 \<longrightarrow> BitsNeeded n < 256"
    using BitsNeeded_le by (auto intro: le_less_trans)
  have p2: "0 < BitsNeeded 0 \<or> 2 \<le> card (set [65, 65, 65, 66 :: byte_t])" by simp
  have n2: "[65, 65, 65, 66 :: byte_t] \<noteq> []" by simp
  have d2: "decode [1, 1, 65, 66, 8, 5, 0, 0, 0] = Some (Inr [65, 65, 65, 66])"
    using decode_encode_roundtrip [OF c b1 b2 n2 p2 l2] by (simp only: e2)
  from e1 d1 e2 d2 show ?thesis by blast
qed

section \<open>The library sort\<close>

lemma length_iter_swap [simp]: "length (iter_swap i j xs) = length xs"
  by (simp add: iter_swap_def)

lemma mset_iter_swap:
  "i < length xs \<Longrightarrow> j < length xs \<Longrightarrow> mset (iter_swap i j xs) = mset xs"
  unfolding iter_swap_def by (simp add: mset_swap)

lemma move_median_to_first_props:
  assumes "r < length xs" "a < length xs" "b < length xs" "c < length xs"
  shows "length (move_median_to_first cmp xs r a b c) = length xs"
    and "mset (move_median_to_first cmp xs r a b c) = mset xs"
  using assms unfolding move_median_to_first_def by (simp_all add: mset_iter_swap)

lemma scan_first_le:
  "first \<le> length xs \<Longrightarrow> scan_first cmp xs pivot first \<le> length xs"
proof (induction cmp xs pivot first rule: scan_first.induct)
  case (1 cmp xs pivot first)
  then show ?case by (subst scan_first.simps) auto
qed

lemma unguarded_partition_props:
  "last' \<le> length xs \<Longrightarrow> first \<le> length xs \<Longrightarrow>
   length (snd (unguarded_partition cmp xs first last' pivot)) = length xs \<and>
   mset (snd (unguarded_partition cmp xs first last' pivot)) = mset xs \<and>
   fst (unguarded_partition cmp xs first last' pivot) \<le> length xs"
proof (induction cmp xs first last' pivot rule: unguarded_partition.induct)
  case (1 cmp xs first last' pivot)
  let ?first1 = "scan_first cmp xs pivot first"
  let ?last1 = "scan_last cmp xs pivot (last' - 1)"
  have f1: "?first1 \<le> length xs"
    using "1.prems" by (simp add: scan_first_le)
  have l1: "?last1 \<le> last' - 1"
    by (rule scan_last_le)
  show ?case
  proof (cases "?first1 < ?last1")
    case False
    have e: "unguarded_partition cmp xs first last' pivot = (?first1, xs)"
      using False by (subst unguarded_partition.simps) (simp add: Let_def)
    show ?thesis unfolding e using f1 by simp
  next
    case True
    then have b: "?last1 < length xs" "?first1 < length xs" "Suc ?first1 \<le> length xs"
      using l1 "1.prems" by auto
    let ?xs = "iter_swap ?first1 ?last1 xs"
    have ih: "length (snd (unguarded_partition cmp ?xs (Suc ?first1) ?last1 pivot)) = length ?xs \<and>
        mset (snd (unguarded_partition cmp ?xs (Suc ?first1) ?last1 pivot)) = mset ?xs \<and>
        fst (unguarded_partition cmp ?xs (Suc ?first1) ?last1 pivot) \<le> length ?xs"
    proof (rule "1.IH" [OF refl refl])
      show "\<not> \<not> ?first1 < ?last1" using True by simp
      show "?last1 \<le> length ?xs" using b by simp
      show "Suc ?first1 \<le> length ?xs" using b by simp
    qed
    have e: "unguarded_partition cmp xs first last' pivot =
        unguarded_partition cmp ?xs (Suc ?first1) ?last1 pivot"
      using True by (subst unguarded_partition.simps) (simp add: Let_def)
    show ?thesis unfolding e using ih b by (simp add: mset_iter_swap)
  qed
qed

lemma unguarded_partition_pivot_props:
  assumes "last' \<le> length xs" "16 < last' - first"
  shows "length (snd (unguarded_partition_pivot cmp xs first last')) = length xs"
    and "mset (snd (unguarded_partition_pivot cmp xs first last')) = mset xs"
    and "fst (unguarded_partition_pivot cmp xs first last') \<le> length xs"
proof -
  define xs1 where
    "xs1 = move_median_to_first cmp xs first (first + 1) (first + (last' - first) div 2) (last' - 1)"
  have m: "length xs1 = length xs" "mset xs1 = mset xs"
    unfolding xs1_def using assms by (simp_all add: move_median_to_first_props)
  have e: "unguarded_partition_pivot cmp xs first last' =
      unguarded_partition cmp xs1 (first + 1) last' first"
    by (simp add: unguarded_partition_pivot_def Let_def xs1_def)
  have "last' \<le> length xs1" "first + 1 \<le> length xs1" using assms m by simp_all
  from unguarded_partition_props [OF this, of cmp first] show
    "length (snd (unguarded_partition_pivot cmp xs first last')) = length xs"
    "mset (snd (unguarded_partition_pivot cmp xs first last')) = mset xs"
    "fst (unguarded_partition_pivot cmp xs first last') \<le> length xs"
    unfolding e using m by simp_all
qed

lemma mset_update_move:
  assumes "i < length xs" "j < length xs"
  shows "mset (xs[i := xs ! j, j := v]) = mset (xs[i := v])"
proof (cases "i = j")
  case True
  then show ?thesis by simp
next
  case False
  let ?ys = "xs[i := v]"
  have "mset (?ys[i := ?ys ! j, j := ?ys ! i]) = mset ?ys"
    by (rule mset_swap) (simp_all add: assms)
  then show ?thesis using False assms by simp
qed

lemma push_heap_props:
  "first + holeIndex < length xs \<Longrightarrow>
   length (push_heap cmp xs first holeIndex topIndex v) = length xs \<and>
   mset (push_heap cmp xs first holeIndex topIndex v) = mset (xs[first + holeIndex := v])"
proof (induction cmp xs first holeIndex topIndex v rule: push_heap.induct)
  case (1 cmp xs first holeIndex topIndex v)
  let ?parent = "(holeIndex - 1) div 2"
  show ?case
  proof (cases "holeIndex > topIndex \<and> cmp (xs ! (first + ?parent)) v")
    case False
    have e: "push_heap cmp xs first holeIndex topIndex v = xs[first + holeIndex := v]"
      using False by (subst push_heap.simps) (auto simp: Let_def)
    show ?thesis unfolding e by simp
  next
    case True
    let ?xs = "xs[first + holeIndex := xs ! (first + ?parent)]"
    have p: "first + ?parent < length xs" using "1.prems" by simp
    have e: "push_heap cmp xs first holeIndex topIndex v = push_heap cmp ?xs first ?parent topIndex v"
      using True by (subst push_heap.simps) (simp add: Let_def)
    have ih: "length (push_heap cmp ?xs first ?parent topIndex v) = length ?xs \<and>
        mset (push_heap cmp ?xs first ?parent topIndex v) = mset (?xs[first + ?parent := v])"
    proof (rule "1.IH" [OF refl])
      show "topIndex < holeIndex \<and> cmp (xs ! (first + ?parent)) v" using True by simp
      show "first + ?parent < length ?xs" using p by simp
    qed
    have m: "mset (?xs[first + ?parent := v]) = mset (xs[first + holeIndex := v])"
      using "1.prems" p by (rule mset_update_move)
    show ?thesis unfolding e using ih m by simp
  qed
qed

lemma adjust_heap_loop_props:
  "secondChild = holeIndex \<Longrightarrow> first + len \<le> length xs \<Longrightarrow> holeIndex < len \<Longrightarrow>
   (case adjust_heap_loop cmp xs first holeIndex secondChild len of
      (xs1, hole1, sc1) \<Rightarrow>
        length xs1 = length xs \<and> hole1 < len \<and> sc1 = hole1 \<and>
        mset (xs1[first + hole1 := v]) = mset (xs[first + holeIndex := v]))"
proof (induction cmp xs first holeIndex secondChild len rule: adjust_heap_loop.induct)
  case (1 cmp xs first holeIndex secondChild len)
  show ?case
  proof (cases "secondChild < (len - 1) div 2")
    case False
    have e: "adjust_heap_loop cmp xs first holeIndex secondChild len = (xs, holeIndex, secondChild)"
      using False by (subst adjust_heap_loop.simps) simp
    show ?thesis unfolding e using "1.prems" by simp
  next
    case True
    let ?sc = "2 * (secondChild + 1)"
    let ?sc1 = "if cmp (xs ! (first + ?sc)) (xs ! (first + (?sc - 1))) then ?sc - 1 else ?sc"
    let ?xs = "xs[first + holeIndex := xs ! (first + ?sc1)]"
    have b: "?sc1 < len" using True by auto
    have e: "adjust_heap_loop cmp xs first holeIndex secondChild len =
        adjust_heap_loop cmp ?xs first ?sc1 ?sc1 len"
      using True by (subst adjust_heap_loop.simps) (simp only: Let_def if_True)
    have ih: "case adjust_heap_loop cmp ?xs first ?sc1 ?sc1 len of
      (xs1, hole1, sc1') \<Rightarrow>
        length xs1 = length ?xs \<and> hole1 < len \<and> sc1' = hole1 \<and>
        mset (xs1[first + hole1 := v]) = mset (?xs[first + ?sc1 := v])"
    proof (rule "1.IH" [OF True refl refl refl])
      show "first + len \<le> length ?xs" using "1.prems" by simp
      show "?sc1 < len" by (rule b)
    qed
    have "first + holeIndex < length xs" "first + ?sc1 < length xs"
      using b "1.prems" by simp_all
    then have m: "mset (?xs[first + ?sc1 := v]) = mset (xs[first + holeIndex := v])"
      by (rule mset_update_move)
    show ?thesis unfolding e using ih unfolding m by (simp split: prod.splits)
  qed
qed

lemma adjust_heap_props:
  assumes "first + len \<le> length xs" "holeIndex < len"
  shows "length (adjust_heap cmp xs first holeIndex len v) = length xs"
    and "mset (adjust_heap cmp xs first holeIndex len v) = mset (xs[first + holeIndex := v])"
proof -
  obtain xs1 hole1 sc1 where
    r: "adjust_heap_loop cmp xs first holeIndex holeIndex len = (xs1, hole1, sc1)"
    by (cases "adjust_heap_loop cmp xs first holeIndex holeIndex len") auto
  from adjust_heap_loop_props [where cmp = cmp and v = v, OF refl assms] r
  have p: "length xs1 = length xs" "hole1 < len" "sc1 = hole1"
    "mset (xs1[first + hole1 := v]) = mset (xs[first + holeIndex := v])"
    by simp_all
  have "length (adjust_heap cmp xs first holeIndex len v) = length xs \<and>
    mset (adjust_heap cmp xs first holeIndex len v) = mset (xs[first + holeIndex := v])"
  proof (cases "even len \<and> int sc1 = (int len - 2) div 2")
    case False
    have e: "adjust_heap cmp xs first holeIndex len v = push_heap cmp xs1 first hole1 holeIndex v"
      using False by (auto simp: adjust_heap_def r)
    have "first + hole1 < length xs1" using p assms by simp
    from push_heap_props [OF this] show ?thesis unfolding e using p by simp
  next
    case True
    let ?k = "2 * (sc1 + 1) - 1"
    have k: "?k < len" using True by (auto elim!: evenE)
    let ?xs = "xs1[first + hole1 := xs1 ! (first + ?k)]"
    have e: "adjust_heap cmp xs first holeIndex len v = push_heap cmp ?xs first ?k holeIndex v"
      using True by (simp add: adjust_heap_def r)
    have "first + ?k < length ?xs" using p assms k by simp
    from push_heap_props [OF this, where cmp = cmp and topIndex = holeIndex and v = v]
    have "length (push_heap cmp ?xs first ?k holeIndex v) = length xs1"
      "mset (push_heap cmp ?xs first ?k holeIndex v) = mset (?xs[first + ?k := v])"
      by simp_all
    moreover have "first + hole1 < length xs1" "first + ?k < length xs1"
      using p assms k by simp_all
    then have "mset (?xs[first + ?k := v]) = mset (xs1[first + hole1 := v])"
      by (rule mset_update_move)
    ultimately show ?thesis unfolding e using p by simp
  qed
  then show "length (adjust_heap cmp xs first holeIndex len v) = length xs"
    and "mset (adjust_heap cmp xs first holeIndex len v) = mset (xs[first + holeIndex := v])"
    by simp_all
qed

lemma pop_heap_props:
  assumes "first < last'" "last' \<le> length xs" "result' < length xs"
  shows "length (pop_heap cmp xs first last' result') = length xs"
    and "mset (pop_heap cmp xs first last' result') = mset xs"
proof -
  let ?xs = "xs[result' := xs ! first]"
  have a: "first + (last' - first) \<le> length ?xs" "0 < last' - first" using assms by simp_all
  from adjust_heap_props [OF a, of cmp "xs ! result'"]
  have "length (pop_heap cmp xs first last' result') = length xs"
    and m: "mset (pop_heap cmp xs first last' result') = mset (?xs[first := xs ! result'])"
    by (simp_all add: pop_heap_def)
  then show "length (pop_heap cmp xs first last' result') = length xs" by simp
  have "mset (?xs[first := xs ! result']) = mset xs"
    using assms mset_swap [of first xs result'] by simp
  then show "mset (pop_heap cmp xs first last' result') = mset xs" using m by simp
qed

lemma make_heap_loop_props:
  "parent < len \<Longrightarrow> first + len \<le> length xs \<Longrightarrow>
   length (make_heap_loop cmp xs first len parent) = length xs \<and>
   mset (make_heap_loop cmp xs first len parent) = mset xs"
proof (induction parent arbitrary: xs)
  case 0
  then show ?case using adjust_heap_props [of first len xs 0 cmp "xs ! first"] by simp
next
  case (Suc parent)
  let ?xs = "adjust_heap cmp xs first (Suc parent) len (xs ! (first + Suc parent))"
  have a: "length ?xs = length xs" "mset ?xs = mset xs"
    using adjust_heap_props [of first len xs "Suc parent" cmp "xs ! (first + Suc parent)"] Suc.prems
    by simp_all
  show ?case using Suc.IH [of ?xs] Suc.prems a by simp
qed

lemma make_heap_props:
  assumes "last' \<le> length xs"
  shows "length (make_heap cmp xs first last') = length xs \<and>
    mset (make_heap cmp xs first last') = mset xs"
proof (cases "last' - first < 2")
  case True
  then show ?thesis by (simp add: make_heap_def)
next
  case False
  then have "(last' - first - 2) div 2 < last' - first" "first + (last' - first) \<le> length xs"
    using assms by simp_all
  from make_heap_loop_props [OF this] False show ?thesis by (simp add: make_heap_def)
qed

lemma sort_heap_props:
  "last' \<le> length xs \<Longrightarrow>
   length (sort_heap cmp xs first last') = length xs \<and>
   mset (sort_heap cmp xs first last') = mset xs"
proof (induction cmp xs first last' rule: sort_heap.induct)
  case (1 cmp xs first last')
  show ?case
  proof (cases "last' - first > 1")
    case False
    then show ?thesis by (subst (1 2) sort_heap.simps) simp
  next
    case True
    let ?xs = "pop_heap cmp xs first (last' - 1) (last' - 1)"
    have p: "length ?xs = length xs" "mset ?xs = mset xs"
      using pop_heap_props [of first "last' - 1" xs "last' - 1" cmp] True "1.prems" by simp_all
    have e: "sort_heap cmp xs first last' = sort_heap cmp ?xs first (last' - 1)"
      using True by (subst sort_heap.simps) simp
    show ?thesis unfolding e using "1.IH" [OF True] p "1.prems" by simp
  qed
qed

lemma heap_select_loop_props:
  "first < middle \<Longrightarrow> middle \<le> length xs \<Longrightarrow> \<forall>i \<in> set is. i < length xs \<Longrightarrow>
   length (foldl (\<lambda>xs i. if cmp (xs ! i) (xs ! first) then pop_heap cmp xs first middle i else xs)
      xs is) = length xs \<and>
   mset (foldl (\<lambda>xs i. if cmp (xs ! i) (xs ! first) then pop_heap cmp xs first middle i else xs)
      xs is) = mset xs"
proof (induction "is" arbitrary: xs)
  case Nil
  then show ?case by simp
next
  case (Cons i "is")
  let ?xs = "if cmp (xs ! i) (xs ! first) then pop_heap cmp xs first middle i else xs"
  have p: "length ?xs = length xs" "mset ?xs = mset xs"
    using pop_heap_props [of first middle xs i cmp] Cons.prems by simp_all
  show ?case using Cons.IH [of ?xs] Cons.prems p by simp
qed

lemma partial_sort_props:
  assumes "first < middle" "middle \<le> last'" "last' \<le> length xs"
  shows "length (partial_sort cmp xs first middle last') = length xs"
    and "mset (partial_sort cmp xs first middle last') = mset xs"
proof -
  let ?h = "make_heap cmp xs first middle"
  have h: "length ?h = length xs" "mset ?h = mset xs"
    using make_heap_props [of middle xs cmp first] assms by simp_all
  have "first < middle" "middle \<le> length ?h" "\<forall>i \<in> set [middle..<last']. i < length ?h"
    using assms h by simp_all
  from heap_select_loop_props [OF this, of cmp]
  have s: "length (heap_select cmp xs first middle last') = length xs"
    "mset (heap_select cmp xs first middle last') = mset xs"
    using h by (simp_all add: heap_select_def)
  have "middle \<le> length (heap_select cmp xs first middle last')" using s assms by simp
  from sort_heap_props [OF this, of cmp first] show
    "length (partial_sort cmp xs first middle last') = length xs"
    "mset (partial_sort cmp xs first middle last') = mset xs"
    using s by (simp_all add: partial_sort_def)
qed

lemma introsort_loop_props:
  "last' \<le> length xs \<Longrightarrow>
   length (introsort_loop cmp xs first last' depth_limit) = length xs \<and>
   mset (introsort_loop cmp xs first last' depth_limit) = mset xs"
proof (induction cmp xs first last' depth_limit rule: introsort_loop.induct)
  case (1 cmp xs first last' depth_limit)
  show ?case
  proof (cases "last' - first > 16")
    case False
    then show ?thesis by (subst (1 2) introsort_loop.simps) simp
  next
    case big: True
    show ?thesis
    proof (cases "depth_limit = 0")
      case True
      have e: "introsort_loop cmp xs first last' depth_limit = partial_sort cmp xs first last' last'"
        using big True by (subst introsort_loop.simps) simp
      show ?thesis unfolding e
        using partial_sort_props [of first last' last' xs cmp] big "1.prems" by simp
    next
      case False
      obtain cut' xs1 where r: "unguarded_partition_pivot cmp xs first last' = (cut', xs1)"
        by (cases "unguarded_partition_pivot cmp xs first last'") auto
      have p: "length xs1 = length xs" "mset xs1 = mset xs" "cut' \<le> length xs"
        using unguarded_partition_pivot_props [OF "1.prems" big, of cmp] r by simp_all
      let ?xs2 = "introsort_loop cmp xs1 cut' last' (depth_limit - 1)"
      have e: "introsort_loop cmp xs first last' depth_limit =
          introsort_loop cmp ?xs2 first cut' (depth_limit - 1)"
        using big False by (subst introsort_loop.simps) (simp add: r)
      have i1: "length ?xs2 = length xs1 \<and> mset ?xs2 = mset xs1"
        using "1.IH"(1) [OF big False r [symmetric]] p "1.prems" by simp
      have i2: "length (introsort_loop cmp ?xs2 first cut' (depth_limit - 1)) = length ?xs2 \<and>
          mset (introsort_loop cmp ?xs2 first cut' (depth_limit - 1)) = mset ?xs2"
        using "1.IH"(2) [OF big False r [symmetric]] p i1 by simp
      show ?thesis unfolding e using i1 i2 p by simp
    qed
  qed
qed

text \<open>The insertion sorts.\<close>

lemma linear_insert_eq:
  "l < length xs \<Longrightarrow>
   linear_insert cmp xs l v = rev (insert_downwards cmp v (rev (take l xs))) @ drop (Suc l) xs"
proof (induction l arbitrary: xs)
  case 0
  then show ?case
    by (subst linear_insert.simps) (cases xs; simp)
next
  case (Suc l)
  have t: "take (Suc l) xs = take l xs @ [xs ! l]"
    using Suc.prems by (simp add: take_Suc_conv_app_nth)
  show ?case
  proof (cases "cmp v (xs ! l)")
    case True
    let ?xs = "xs[Suc l := xs ! l]"
    have e: "linear_insert cmp xs (Suc l) v = linear_insert cmp ?xs l v"
      using True by (subst linear_insert.simps) simp
    have d: "drop (Suc l) ?xs = xs ! l # drop (Suc (Suc l)) xs"
      using Suc.prems by (simp add: Cons_nth_drop_Suc [symmetric] drop_update_swap)
    show ?thesis unfolding e using Suc.IH [of ?xs] Suc.prems True by (simp add: t d)
  next
    case False
    have e: "linear_insert cmp xs (Suc l) v = xs[Suc l := v]"
      using False by (subst linear_insert.simps) simp
    show ?thesis unfolding e using False Suc.prems
      by (simp add: t upd_conv_take_nth_drop take_Suc_conv_app_nth)
  qed
qed

lemma mset_insert_downwards [simp]:
  "mset (insert_downwards cmp v ys) = add_mset v (mset ys)"
  by (induction ys) simp_all

lemma length_insert_downwards [simp]:
  "length (insert_downwards cmp v ys) = Suc (length ys)"
  by (induction ys) simp_all

lemma sorted_insert_downwards:
  "sorted_wrt (\<lambda>a b. freq a \<le> freq b) ys \<Longrightarrow>
   sorted_wrt (\<lambda>a b. freq a \<le> freq b) (insert_downwards freq_comp v ys)"
proof (induction ys)
  case Nil
  then show ?case by simp
next
  case (Cons y ys)
  show ?case
  proof (cases "freq_comp v y")
    case True
    have "set (insert_downwards freq_comp v ys) = insert v (set ys)"
      using mset_insert_downwards [of freq_comp v ys]
      by (metis set_mset_add_mset_insert set_mset_mset)
    then have "\<forall>x \<in> set (insert_downwards freq_comp v ys). freq y \<le> freq x"
      using True Cons.prems by (auto simp: freq_comp_def)
    then show ?thesis using True Cons by simp
  next
    case False
    then show ?thesis using Cons.prems by (auto simp: freq_comp_def)
  qed
qed

lemma sorted_wrt_rev_freq:
  "sorted_wrt (\<lambda>a b. freq a \<le> freq b) (rev ys) = sorted_wrt (\<lambda>a b. freq b \<le> freq a) ys"
  by (simp add: sorted_wrt_rev)

text \<open>One step of either insertion loop, on a range that starts the array.\<close>

lemma unguarded_linear_insert_step:
  assumes "i < length xs" "sorted_wrt (\<lambda>a b. freq b \<le> freq a) (take i xs)"
  shows "length (unguarded_linear_insert freq_comp xs i) = length xs"
    and "mset (unguarded_linear_insert freq_comp xs i) = mset xs"
    and "sorted_wrt (\<lambda>a b. freq b \<le> freq a) (take (Suc i) (unguarded_linear_insert freq_comp xs i))"
proof -
  let ?p = "rev (insert_downwards freq_comp (xs ! i) (rev (take i xs)))"
  have e: "unguarded_linear_insert freq_comp xs i = ?p @ drop (Suc i) xs"
    using assms(1) by (simp add: unguarded_linear_insert_def linear_insert_eq)
  have l: "length ?p = Suc i" using assms(1) by simp
  show "length (unguarded_linear_insert freq_comp xs i) = length xs"
    unfolding e using assms(1) by simp
  have "mset (?p @ drop (Suc i) xs) = mset (take i xs @ xs ! i # drop (Suc i) xs)"
    by simp
  also have "\<dots> = mset xs" using assms(1) by (simp only: id_take_nth_drop [symmetric])
  finally show "mset (unguarded_linear_insert freq_comp xs i) = mset xs" unfolding e .
  have "sorted_wrt (\<lambda>a b. freq a \<le> freq b) (rev (take i xs))"
    using assms(2) by (simp add: sorted_wrt_rev_freq)
  then have "sorted_wrt (\<lambda>a b. freq a \<le> freq b) (insert_downwards freq_comp (xs ! i) (rev (take i xs)))"
    by (rule sorted_insert_downwards)
  then have "sorted_wrt (\<lambda>a b. freq b \<le> freq a) ?p"
    using sorted_wrt_rev_freq [of ?p] by simp
  then show "sorted_wrt (\<lambda>a b. freq b \<le> freq a) (take (Suc i) (unguarded_linear_insert freq_comp xs i))"
    unfolding e using l by simp
qed

lemma move_to_first_step:
  assumes "i < length xs" "0 < i" "sorted_wrt (\<lambda>a b. freq b \<le> freq a) (take i xs)"
    "freq_comp (xs ! i) (xs ! 0)"
  shows "length (take 0 xs @ [xs ! i] @ take (i - 0) (drop 0 xs) @ drop (Suc i) xs) = length xs"
    and "mset (take 0 xs @ [xs ! i] @ take (i - 0) (drop 0 xs) @ drop (Suc i) xs) = mset xs"
    and "sorted_wrt (\<lambda>a b. freq b \<le> freq a)
      (take (Suc i) (take 0 xs @ [xs ! i] @ take (i - 0) (drop 0 xs) @ drop (Suc i) xs))"
proof -
  show "length (take 0 xs @ [xs ! i] @ take (i - 0) (drop 0 xs) @ drop (Suc i) xs) = length xs"
    using assms(1) by simp
  have "mset (take i xs @ xs ! i # drop (Suc i) xs) = mset xs"
    using assms(1) by (simp only: id_take_nth_drop [symmetric])
  then show "mset (take 0 xs @ [xs ! i] @ take (i - 0) (drop 0 xs) @ drop (Suc i) xs) = mset xs"
    by simp
  have h: "take i xs = xs ! 0 # tl (take i xs)"
    using assms(1,2) by (cases xs; cases i; simp)
  have "\<forall>y \<in> set (take i xs). freq y \<le> freq (xs ! i)"
    using assms(3,4) by (subst h, subst (asm) h) (auto simp: freq_comp_def)
  then show "sorted_wrt (\<lambda>a b. freq b \<le> freq a)
      (take (Suc i) (take 0 xs @ [xs ! i] @ take (i - 0) (drop 0 xs) @ drop (Suc i) xs))"
    using assms(1,3) by simp
qed

lemma insertion_loop_props:
  assumes step: "\<And>xs i. i < length xs \<Longrightarrow> k \<le> i \<Longrightarrow>
      sorted_wrt (\<lambda>a b. freq b \<le> freq a) (take i xs) \<Longrightarrow>
      length (f xs i) = length xs \<and> mset (f xs i) = mset xs \<and>
      sorted_wrt (\<lambda>a b. freq b \<le> freq a) (take (Suc i) (f xs i))"
  shows "k \<le> n \<Longrightarrow> n \<le> length xs \<Longrightarrow> sorted_wrt (\<lambda>a b. freq b \<le> freq a) (take k xs) \<Longrightarrow>
     length (foldl f xs [k..<n]) = length xs \<and> mset (foldl f xs [k..<n]) = mset xs \<and>
     sorted_wrt (\<lambda>a b. freq b \<le> freq a) (take n (foldl f xs [k..<n]))"
proof (induction n)
  case 0
  then show ?case by simp
next
  case (Suc n)
  show ?case
  proof (cases "k = Suc n")
    case True
    then show ?thesis using Suc.prems by simp
  next
    case False
    then have kn: "k \<le> n" using Suc.prems by simp
    let ?ys = "foldl f xs [k..<n]"
    have ih: "length ?ys = length xs" "mset ?ys = mset xs"
      "sorted_wrt (\<lambda>a b. freq b \<le> freq a) (take n ?ys)"
      using Suc.IH [OF kn] Suc.prems by simp_all
    have "n < length ?ys" using ih Suc.prems by simp
    from step [OF this kn ih(3)] ih show ?thesis using kn by simp
  qed
qed

lemma insertion_sort_props:
  assumes "n \<le> length xs"
  shows "length (insertion_sort freq_comp xs 0 n) = length xs"
    and "mset (insertion_sort freq_comp xs 0 n) = mset xs"
    and "sorted_wrt (\<lambda>a b. freq b \<le> freq a) (take n (insertion_sort freq_comp xs 0 n))"
proof -
  let ?f = "\<lambda>xs i. if freq_comp (xs ! i) (xs ! 0)
             then take 0 xs @ [xs ! i] @ take (i - 0) (drop 0 xs) @ drop (Suc i) xs
             else unguarded_linear_insert freq_comp xs i"
  have step: "length (?f xs i) = length xs \<and> mset (?f xs i) = mset xs \<and>
      sorted_wrt (\<lambda>a b. freq b \<le> freq a) (take (Suc i) (?f xs i))"
    if "i < length xs" "0 + 1 \<le> i" "sorted_wrt (\<lambda>a b. freq b \<le> freq a) (take i xs)"
    for xs :: "'a Letter list" and i
  proof (cases "freq_comp (xs ! i) (xs ! 0)")
    case True
    have "0 < i" using that by simp
    from move_to_first_step [OF that(1) this that(3) True] True show ?thesis by simp
  next
    case False
    from unguarded_linear_insert_step [OF that(1,3)] False show ?thesis by simp
  qed
  have r: "length (insertion_sort freq_comp xs 0 n) = length xs \<and>
      mset (insertion_sort freq_comp xs 0 n) = mset xs \<and>
      sorted_wrt (\<lambda>a b. freq b \<le> freq a) (take n (insertion_sort freq_comp xs 0 n))"
  proof (cases "n = 0")
    case True
    then show ?thesis by (simp add: insertion_sort_def)
  next
    case False
    have s1: "sorted_wrt (\<lambda>a b. freq b \<le> freq a) (take (0 + 1) xs)"
      by (cases xs) simp_all
    have "0 + 1 \<le> n" using False by simp
    from insertion_loop_props [of "0 + 1" ?f, OF step this assms s1] False
    show ?thesis by (simp add: insertion_sort_def)
  qed
  then show "length (insertion_sort freq_comp xs 0 n) = length xs"
    and "mset (insertion_sort freq_comp xs 0 n) = mset xs"
    and "sorted_wrt (\<lambda>a b. freq b \<le> freq a) (take n (insertion_sort freq_comp xs 0 n))"
    by simp_all
qed

lemma unguarded_insertion_sort_props:
  assumes "k \<le> length xs" "sorted_wrt (\<lambda>a b. freq b \<le> freq a) (take k xs)"
  shows "mset (unguarded_insertion_sort freq_comp xs k (length xs)) = mset xs"
    and "sorted_wrt (\<lambda>a b. freq b \<le> freq a) (unguarded_insertion_sort freq_comp xs k (length xs))"
proof -
  have step: "length (unguarded_linear_insert freq_comp xs i) = length xs \<and>
      mset (unguarded_linear_insert freq_comp xs i) = mset xs \<and>
      sorted_wrt (\<lambda>a b. freq b \<le> freq a) (take (Suc i) (unguarded_linear_insert freq_comp xs i))"
    if "i < length xs" "k \<le> i" "sorted_wrt (\<lambda>a b. freq b \<le> freq a) (take i xs)"
    for xs :: "'a Letter list" and i
    using unguarded_linear_insert_step [OF that(1,3)] by simp
  let ?ys = "foldl (unguarded_linear_insert freq_comp) xs [k..<length xs]"
  have c: "length ?ys = length xs \<and> mset ?ys = mset xs \<and>
      sorted_wrt (\<lambda>a b. freq b \<le> freq a) (take (length xs) ?ys)"
    by (rule insertion_loop_props [of k "unguarded_linear_insert freq_comp",
          OF step assms(1) order_refl assms(2)])
  then have "take (length xs) ?ys = ?ys" by simp
  with c have "length (unguarded_insertion_sort freq_comp xs k (length xs)) = length xs"
    "mset (unguarded_insertion_sort freq_comp xs k (length xs)) = mset xs"
    "sorted_wrt (\<lambda>a b. freq b \<le> freq a) (unguarded_insertion_sort freq_comp xs k (length xs))"
    by (simp_all add: unguarded_insertion_sort_def)
  then show "mset (unguarded_insertion_sort freq_comp xs k (length xs)) = mset xs"
    and "sorted_wrt (\<lambda>a b. freq b \<le> freq a) (unguarded_insertion_sort freq_comp xs k (length xs))"
    by simp_all
qed

lemma final_insertion_sort_props:
  "mset (final_insertion_sort freq_comp xs 0 (length xs)) = mset xs"
  "sorted_wrt (\<lambda>a b. freq b \<le> freq a) (final_insertion_sort freq_comp xs 0 (length xs))"
proof -
  have "mset (final_insertion_sort freq_comp xs 0 (length xs)) = mset xs \<and>
    sorted_wrt (\<lambda>a b. freq b \<le> freq a) (final_insertion_sort freq_comp xs 0 (length xs))"
  proof (cases "length xs > 16")
    case True
    let ?ys = "insertion_sort freq_comp xs 0 16"
    have i: "length ?ys = length xs" "mset ?ys = mset xs"
      "sorted_wrt (\<lambda>a b. freq b \<le> freq a) (take 16 ?ys)"
      using insertion_sort_props [of 16 xs] True by simp_all
    have "16 \<le> length ?ys" using i True by simp
    from unguarded_insertion_sort_props [OF this i(3)] i True
    show ?thesis by (simp add: final_insertion_sort_def)
  next
    case False
    then show ?thesis
      using insertion_sort_props [of "length xs" xs] by (simp add: final_insertion_sort_def)
  qed
  then show "mset (final_insertion_sort freq_comp xs 0 (length xs)) = mset xs"
    "sorted_wrt (\<lambda>a b. freq b \<le> freq a) (final_insertion_sort freq_comp xs 0 (length xs))"
    by simp_all
qed

text \<open>
  The library sort keeps the contract of \<open>std::sort\<close>: it permutes the alphabet and
  leaves no letter before one of higher frequency.
\<close>

lemma stl_sort_post: "std_sort_post xs (stl_sort freq_comp xs)"
proof (cases "length xs = 0")
  case True
  then show ?thesis by (simp add: stl_sort_def std_sort_post_def)
next
  case False
  let ?ys = "introsort_loop freq_comp xs 0 (length xs) (lg (length xs) * 2)"
  have i: "length ?ys = length xs" "mset ?ys = mset xs"
    using introsort_loop_props [of "length xs" xs freq_comp 0] by simp_all
  have "mset (final_insertion_sort freq_comp ?ys 0 (length ?ys)) = mset ?ys"
    "sorted_wrt (\<lambda>a b. freq b \<le> freq a) (final_insertion_sort freq_comp ?ys 0 (length ?ys))"
    by (rule final_insertion_sort_props)+
  then show ?thesis using i False by (simp add: stl_sort_def std_sort_post_def not_less)
qed

lemma stl_sort_contract: "std_sort_contract (stl_sort freq_comp)"
  by (simp add: std_sort_contract_def stl_sort_post)


text \<open>Up to 16 elements the library sort is its insertion sort, which is stable.\<close>

lemma stl_sort_small:
  assumes "length xs \<le> 16"
  shows "stl_sort cmp xs = insertion_sort cmp xs 0 (length xs)"
proof -
  have "introsort_loop cmp xs 0 (length xs) (lg (length xs) * 2) = xs"
    using assms by (subst introsort_loop.simps) simp
  then show ?thesis
    using assms by (simp add: stl_sort_def final_insertion_sort_def insertion_sort_def)
qed

lemma stable_before_trans:
  "stable_before e a b \<Longrightarrow> stable_before e b c \<Longrightarrow> stable_before e a c"
  by (auto simp: stable_before_def)

lemma set_insert_downwards [simp]:
  "set (insert_downwards cmp v ys) = insert v (set ys)"
  by (induction ys) auto

lemma stable_insert_downwards:
  "sorted_wrt (\<lambda>a b. stable_before e b a) ys \<Longrightarrow> \<forall>y \<in> set ys. e y < e v \<Longrightarrow>
   sorted_wrt (\<lambda>a b. stable_before e b a) (insert_downwards freq_comp v ys)"
proof (induction ys)
  case Nil
  then show ?case by simp
next
  case (Cons y ys)
  show ?case
  proof (cases "freq_comp v y")
    case True
    then have "stable_before e v y" by (simp add: freq_comp_def stable_before_def)
    then show ?thesis using True Cons by simp
  next
    case False
    then have vy: "stable_before e y v"
      using Cons.prems(2) by (auto simp: freq_comp_def stable_before_def)
    have "stable_before e x v" if "x \<in> set ys" for x
      using that Cons.prems(1) vy stable_before_trans [of e x y v] by auto
    then show ?thesis using False vy Cons.prems(1) by simp
  qed
qed

lemma unguarded_linear_insert_stable:
  assumes "i < length xs" "sorted_wrt (stable_before e) (take i xs)"
    "\<forall>y \<in> set (take i xs). e y < e (xs ! i)"
  shows "length (unguarded_linear_insert freq_comp xs i) = length xs \<and>
    drop (Suc i) (unguarded_linear_insert freq_comp xs i) = drop (Suc i) xs \<and>
    set (take (Suc i) (unguarded_linear_insert freq_comp xs i)) = set (take (Suc i) xs) \<and>
    sorted_wrt (stable_before e) (take (Suc i) (unguarded_linear_insert freq_comp xs i))"
proof -
  let ?p = "rev (insert_downwards freq_comp (xs ! i) (rev (take i xs)))"
  have e: "unguarded_linear_insert freq_comp xs i = ?p @ drop (Suc i) xs"
    using assms(1) by (simp add: unguarded_linear_insert_def linear_insert_eq)
  have l: "length ?p = Suc i" using assms(1) by simp
  have t: "take (Suc i) (?p @ drop (Suc i) xs) = ?p" "drop (Suc i) (?p @ drop (Suc i) xs) = drop (Suc i) xs"
    using l by simp_all
  have "sorted_wrt (\<lambda>a b. stable_before e b a) (rev (take i xs))"
    using assms(2) by (simp add: sorted_wrt_rev)
  moreover have "\<forall>y \<in> set (rev (take i xs)). e y < e (xs ! i)" using assms(3) by simp
  ultimately have "sorted_wrt (\<lambda>a b. stable_before e b a)
      (insert_downwards freq_comp (xs ! i) (rev (take i xs)))"
    by (rule stable_insert_downwards)
  then have s: "sorted_wrt (stable_before e) ?p"
    by (simp add: sorted_wrt_rev)
  have m: "set ?p = set (take (Suc i) xs)"
    using assms(1) by (simp add: take_Suc_conv_app_nth)
  show ?thesis unfolding e t using s m assms(1) by simp
qed

lemma move_to_first_stable:
  assumes "i < length xs" "0 < i" "sorted_wrt (stable_before e) (take i xs)"
    "freq_comp (xs ! i) (xs ! 0)"
  shows "length (take 0 xs @ [xs ! i] @ take (i - 0) (drop 0 xs) @ drop (Suc i) xs) = length xs \<and>
    drop (Suc i) (take 0 xs @ [xs ! i] @ take (i - 0) (drop 0 xs) @ drop (Suc i) xs) = drop (Suc i) xs \<and>
    set (take (Suc i) (take 0 xs @ [xs ! i] @ take (i - 0) (drop 0 xs) @ drop (Suc i) xs))
      = set (take (Suc i) xs) \<and>
    sorted_wrt (stable_before e)
      (take (Suc i) (take 0 xs @ [xs ! i] @ take (i - 0) (drop 0 xs) @ drop (Suc i) xs))"
proof -
  have h: "take i xs = xs ! 0 # tl (take i xs)"
    using assms(1,2) by (cases xs; cases i; simp)
  have "\<forall>y \<in> set (take i xs). stable_before e (xs ! i) y"
    using assms(3,4) by (subst h, subst (asm) h) (auto simp: freq_comp_def stable_before_def)
  then show ?thesis
    using assms(1,3) by (simp add: take_Suc_conv_app_nth)
qed

lemma stable_loop:
  assumes step: "\<And>xs i. i < length xs \<Longrightarrow> k \<le> i \<Longrightarrow>
      sorted_wrt (stable_before e) (take i xs) \<Longrightarrow> \<forall>y \<in> set (take i xs). e y < e (xs ! i) \<Longrightarrow>
      length (f xs i) = length xs \<and> drop (Suc i) (f xs i) = drop (Suc i) xs \<and>
      set (take (Suc i) (f xs i)) = set (take (Suc i) xs) \<and>
      sorted_wrt (stable_before e) (take (Suc i) (f xs i))"
    and inc: "sorted_wrt (\<lambda>a b. e a < e b) xs"
  shows "k \<le> n \<Longrightarrow> n \<le> length xs \<Longrightarrow> sorted_wrt (stable_before e) (take k xs) \<Longrightarrow>
     length (foldl f xs [k..<n]) = length xs \<and> drop n (foldl f xs [k..<n]) = drop n xs \<and>
     set (take n (foldl f xs [k..<n])) = set (take n xs) \<and>
     sorted_wrt (stable_before e) (take n (foldl f xs [k..<n]))"
proof (induction n)
  case 0
  then show ?case by simp
next
  case (Suc n)
  show ?case
  proof (cases "k = Suc n")
    case True
    then show ?thesis using Suc.prems by simp
  next
    case False
    then have kn: "k \<le> n" using Suc.prems by simp
    let ?ys = "foldl f xs [k..<n]"
    have ih: "length ?ys = length xs" "drop n ?ys = drop n xs"
      "set (take n ?ys) = set (take n xs)" "sorted_wrt (stable_before e) (take n ?ys)"
      using Suc.IH [OF kn] Suc.prems by simp_all
    have n: "n < length ?ys" "n < length xs" using ih Suc.prems by simp_all
    have nth: "?ys ! n = xs ! n"
      using ih(2) n by (metis hd_drop_conv_nth)
    have dS: "drop (Suc n) ?ys = drop (Suc n) xs"
      using ih(2) by (metis drop_Suc tl_drop)
    have "sorted_wrt (\<lambda>a b. e a < e b) (take n xs @ drop n xs)" using inc by simp
    then have "\<forall>y \<in> set (take n xs). e y < e (xs ! n)"
      unfolding sorted_wrt_append using n(2) by (simp add: Cons_nth_drop_Suc [symmetric])
    then have b: "\<forall>y \<in> set (take n ?ys). e y < e (?ys ! n)"
      using ih(3) nth by simp
    have tS: "set (take (Suc n) ?ys) = set (take (Suc n) xs)"
      using n ih(3) nth by (simp add: take_Suc_conv_app_nth)
    from step [OF n(1) kn ih(4) b] ih dS tS show ?thesis using kn by simp
  qed
qed

lemma insertion_sort_stable:
  assumes "sorted_wrt (\<lambda>a b. e a < e b) xs"
  shows "sorted_wrt (stable_before e) (insertion_sort freq_comp xs 0 (length xs))"
proof (cases "length xs = 0")
  case True
  then show ?thesis by (simp add: insertion_sort_def)
next
  case False
  let ?f = "\<lambda>xs i. if freq_comp (xs ! i) (xs ! 0)
             then take 0 xs @ [xs ! i] @ take (i - 0) (drop 0 xs) @ drop (Suc i) xs
             else unguarded_linear_insert freq_comp xs i"
  have step: "length (?f xs i) = length xs \<and> drop (Suc i) (?f xs i) = drop (Suc i) xs \<and>
      set (take (Suc i) (?f xs i)) = set (take (Suc i) xs) \<and>
      sorted_wrt (stable_before e) (take (Suc i) (?f xs i))"
    if "i < length xs" "0 + 1 \<le> i" "sorted_wrt (stable_before e) (take i xs)"
      "\<forall>y \<in> set (take i xs). e y < e (xs ! i)"
    for xs :: "'a Letter list" and i
  proof (cases "freq_comp (xs ! i) (xs ! 0)")
    case True
    have "0 < i" using that by simp
    from move_to_first_stable [OF that(1) this that(3) True] True show ?thesis by simp
  next
    case False
    from unguarded_linear_insert_stable [OF that(1,3,4)] False show ?thesis by simp
  qed
  have s1: "sorted_wrt (stable_before e) (take (0 + 1) xs)"
    by (cases xs) simp_all
  have l: "0 + 1 \<le> length xs" using False by (cases xs) simp_all
  let ?ys = "foldl ?f xs [0 + 1..<length xs]"
  have c: "length ?ys = length xs \<and> drop (length xs) ?ys = drop (length xs) xs \<and>
      set (take (length xs) ?ys) = set (take (length xs) xs) \<and>
      sorted_wrt (stable_before e) (take (length xs) ?ys)"
    by (rule stable_loop [of "0 + 1" e ?f, OF step assms l order_refl s1])
  then have t: "take (length xs) ?ys = ?ys" by simp
  from c have "sorted_wrt (stable_before e) (take (length xs) ?ys)" by blast
  then have "sorted_wrt (stable_before e) ?ys" by (simp only: t)
  then show ?thesis using False by (simp add: insertion_sort_def)
qed

lemma first_seen_encounter_order:
  "sorted_wrt (\<lambda>u v. encounter_index B u < encounter_index B v) (first_seen B)"
proof (induction B)
  case Nil
  then show ?case by simp
next
  case (Cons x B)
  have "sorted_wrt (\<lambda>u v. encounter_index B u < encounter_index B v)
      (filter (\<lambda>y. y \<noteq> x) (first_seen B))"
    using Cons by (rule sorted_wrt_filter)
  then have "sorted_wrt (\<lambda>u v. encounter_index (x # B) u < encounter_index (x # B) v)
      (filter (\<lambda>y. y \<noteq> x) (first_seen B))"
    by (rule sorted_wrt_mono_rel [rotated]) auto
  then show ?case by auto
qed

lemma stl_sort_ties:
  assumes "length (construct_alphabet (store_contiguous_values B)) \<le> 16"
  shows "ties_in_encounter_order B (encode_alphabet (stl_sort freq_comp) B)"
proof -
  let ?al = "construct_alphabet (store_contiguous_values B)"
  let ?e = "\<lambda>a. encounter_index B (lvalue a)"
  have "sorted_wrt (\<lambda>u v. encounter_index B u < encounter_index B v) (map lvalue ?al)"
    by (simp add: lvalue_construct_alphabet first_seen_encounter_order)
  then have "sorted_wrt (\<lambda>a b. ?e a < ?e b) ?al"
    by (simp add: sorted_wrt_map)
  then have "sorted_wrt (stable_before ?e) (insertion_sort freq_comp ?al 0 (length ?al))"
    by (rule insertion_sort_stable)
  then have "sorted_wrt (stable_before ?e) (stl_sort freq_comp ?al)"
    using assms by (simp add: stl_sort_small)
  then show ?thesis
    unfolding ties_in_encounter_order_def encode_alphabet_def
    by (rule sorted_wrt_mono_rel [rotated]) (auto simp: stable_before_def)
qed

lemma length_construct_alphabet:
  "length (construct_alphabet (store_contiguous_values B)) = card (set B)"
proof -
  have "length (map lvalue (construct_alphabet (store_contiguous_values B))) = card (set B)"
    unfolding lvalue_construct_alphabet using distinct_card [of "first_seen B"] by simp
  then show ?thesis by simp
qed

text \<open>
  C4, as the code has it, with the \<open>std::sort\<close> of libstdc++. The alphabet has one
  letter for each distinct symbol of the input, with the number of its occurrences
  as frequency; before the sort the letters are in first-seen order, after it no
  letter stands before one of higher frequency. Symbols with equal total frequency
  keep their first-seen order when the input has at most 16 distinct symbols, the
  ranges that the library sorts by insertion alone.
\<close>

theorem alphabet_sorted_by_frequency:
  "sorted_wrt (\<lambda>a b. freq b \<le> freq a) (encode_alphabet (stl_sort freq_comp) B) \<and>
   distinct (map lvalue (encode_alphabet (stl_sort freq_comp) B)) \<and>
   set (map lvalue (encode_alphabet (stl_sort freq_comp) B)) = set B \<and>
   (\<forall>a \<in> set (encode_alphabet (stl_sort freq_comp) B). freq a = count_list B (lvalue a)) \<and>
   map lvalue (construct_alphabet (store_contiguous_values B)) = first_seen B \<and>
   (card (set B) \<le> 16 \<longrightarrow> ties_in_encounter_order B (encode_alphabet (stl_sort freq_comp) B))"
proof -
  have "std_sort_post (construct_alphabet (store_contiguous_values B))
      (encode_alphabet (stl_sort freq_comp) B)"
    unfolding encode_alphabet_def by (rule stl_sort_post)
  from sorted_alphabet_props [OF this] stl_sort_ties [of B] show ?thesis
    by (simp add: length_construct_alphabet)
qed

theorem alphabet_sorted_by_frequency_witness:
  "encode_alphabet (stl_sort freq_comp) [66, 65, 65, 67, 65 :: byte_t] =
     [\<lparr>lvalue = 65, freq = 3\<rparr>, \<lparr>lvalue = 66, freq = 1\<rparr>, \<lparr>lvalue = 67, freq = 1\<rparr>] \<and>
   card (set [66, 65, 65, 67, 65 :: byte_t]) \<le> 16 \<and>
   ties_in_encounter_order [66, 65, 65, 67, 65 :: byte_t]
     [\<lparr>lvalue = 65, freq = 3\<rparr>, \<lparr>lvalue = 66, freq = 1\<rparr>, \<lparr>lvalue = 67, freq = 1\<rparr>] \<and>
   sorted_wrt (\<lambda>a b. freq b \<le> freq a)
     [\<lparr>lvalue = 65 :: byte_t, freq = 3\<rparr>, \<lparr>lvalue = 66, freq = 1\<rparr>, \<lparr>lvalue = 67, freq = 1\<rparr>] \<and>
   map lvalue (construct_alphabet (store_contiguous_values [66, 65, 65, 67, 65 :: byte_t])) =
     [66, 65, 67]"
proof -
  have a: "encode_alphabet (stl_sort freq_comp) [66, 65, 65, 67, 65 :: byte_t] =
     [\<lparr>lvalue = 65, freq = 3\<rparr>, \<lparr>lvalue = 66, freq = 1\<rparr>, \<lparr>lvalue = 67, freq = 1\<rparr>]"
    by code_simp
  have c: "card (set [66, 65, 65, 67, 65 :: byte_t]) \<le> 16"
    by (simp add: card_insert_if)
  from alphabet_sorted_by_frequency [of "[66, 65, 65, 67, 65 :: byte_t]"] c
  show ?thesis unfolding a by simp
qed

text \<open>
  C4 as stated fails: for the input \<open>1, 2, \<dots>, 17\<close> all 17 letters have frequency 1,
  the library sort partitions the range once, and the alphabet it leaves starts
  with the symbols 9 and 17.
\<close>

theorem stable_order_counterexample:
  "map lvalue (encode_alphabet (stl_sort freq_comp)
      [1, 2, 3, 4, 5, 6, 7, 8, 9, 10, 11, 12, 13, 14, 15, 16, 17 :: byte_t]) =
     [9, 17, 16, 15, 14, 13, 12, 11, 10, 1, 8, 7, 6, 5, 4, 3, 2] \<and>
   \<not> ties_in_encounter_order [1, 2, 3, 4, 5, 6, 7, 8, 9, 10, 11, 12, 13, 14, 15, 16, 17 :: byte_t]
     (encode_alphabet (stl_sort freq_comp)
        [1, 2, 3, 4, 5, 6, 7, 8, 9, 10, 11, 12, 13, 14, 15, 16, 17 :: byte_t])"
  by code_simp

end
